theory Spec2Isabelle
  imports Complex_Main
begin

section \<open>Extraction records\<close>

text \<open>
  \<open>ExtractedData\<close> is the fixed-shape record the oracle is asked to fill.  Every field is
  a string or \<open>null\<close>; a key that is missing from the parsed reply reads as
  \<open>undefined\<close>.  The source never tells \<open>null\<close> from \<open>undefined\<close> (it tests
  \<open>!v\<close>, or \<open>v !== null && v !== undefined\<close>), so both are \<open>None\<close> here.
\<close>

record ExtractedData =
  company_name :: "string option"
  quarter :: "string option"
  total_revenue :: "string option"
  earnings_per_share :: "string option"
  net_income :: "string option"
  operating_income :: "string option"
  gross_margin :: "string option"
  operating_expenses :: "string option"
  buybacks_and_dividends :: "string option"

text \<open>JavaScript's \<open>!v\<close> on a \<open>string | null\<close>: true for \<open>null\<close> and for the empty string.\<close>

definition falsy :: "string option \<Rightarrow> bool" where
  "falsy v = (case v of None \<Rightarrow> True | Some s \<Rightarrow> s = [])"

definition FINANCIAL_FIELDS :: "(ExtractedData \<Rightarrow> string option) list" where
  "FINANCIAL_FIELDS =
     [total_revenue, earnings_per_share, net_income, operating_income,
      gross_margin, operating_expenses, buybacks_and_dividends]"

text \<open>The array \<open>financialFields\<close> that \<open>validateExtraction\<close> builds from a record.\<close>

definition financialFields :: "ExtractedData \<Rightarrow> string option list" where
  "financialFields data =
     [total_revenue data, earnings_per_share data, net_income data, operating_income data,
      gross_margin data, operating_expenses data, buybacks_and_dividends data]"

section \<open>The extraction strategy\<close>

definition needsFallback :: "ExtractedData \<Rightarrow> bool" where
  "needsFallback data =
     (if falsy (company_name data) then True
      else let foundCount = length (filter (\<lambda>f. f data \<noteq> None) FINANCIAL_FIELDS)
           in foundCount < 2)"

text \<open>
  The first revision of the extractor (the file \<open>llm-extractor.ts\<close>) counted the missing
  fields instead and fell back from four missing fields on.
\<close>

definition needsFallback_v1 :: "ExtractedData \<Rightarrow> bool" where
  "needsFallback_v1 data =
     (if falsy (company_name data) then True
      else let nullCount = length (filter (\<lambda>f. f data = None) FINANCIAL_FIELDS)
           in nullCount \<ge> 4)"

text \<open>
  \<open>String.prototype.trim\<close> removes white space and line terminators at both ends; on the
  Latin-1 characters of \<open>char\<close> these are the seven below.
\<close>

definition js_whitespace :: "char \<Rightarrow> bool" where
  "js_whitespace c =
     (c \<in> set [CHR 0x09, CHR 0x0A, CHR 0x0B, CHR 0x0C, CHR 0x0D, CHR 0x20, CHR 0xA0])"

definition trim :: "string \<Rightarrow> string" where
  "trim s = rev (dropWhile js_whitespace (rev (dropWhile js_whitespace s)))"

text \<open>
  \<open>extractFromPDF\<close> with its three collaborators as parameters: the text extractor, the
  cheap tier \<open>extractFromText\<close> and the expensive tier \<open>extractFromFullPDF\<close>; each
  either throws (\<open>Inl\<close>) or returns.  Next to the outcome the model returns the tier
  calls the run has made, in order.
\<close>

datatype 'doc tier_call = TextTier string | VisionTier 'doc

definition extractFromPDF ::
  "('doc \<Rightarrow> 'e + string) \<Rightarrow> (string \<Rightarrow> 'e + ExtractedData) \<Rightarrow> ('doc \<Rightarrow> 'e + ExtractedData)
     \<Rightarrow> 'doc \<Rightarrow> 'doc tier_call list \<times> ('e + ExtractedData)" where
  "extractFromPDF extractTextFromPDF extractFromText extractFromFullPDF pdfBuffer =
     (case extractTextFromPDF pdfBuffer of
        Inl _ \<Rightarrow> ([VisionTier pdfBuffer], extractFromFullPDF pdfBuffer)
      | Inr text \<Rightarrow>
          if length (trim text) < 100
          then ([VisionTier pdfBuffer], extractFromFullPDF pdfBuffer)
          else (case extractFromText text of
                  Inl e \<Rightarrow> ([TextTier text], Inl e)
                | Inr result \<Rightarrow>
                    if needsFallback result
                    then ([TextTier text, VisionTier pdfBuffer], extractFromFullPDF pdfBuffer)
                    else ([TextTier text], Inr result)))"

definition is_TextTier :: "'doc tier_call \<Rightarrow> bool" where
  "is_TextTier c = (case c of TextTier _ \<Rightarrow> True | VisionTier _ \<Rightarrow> False)"

text \<open>Sample inputs used to run the definitions.\<close>

definition sample_record :: ExtractedData where
  "sample_record =
     \<lparr>company_name = Some ''Example Corp'', quarter = Some ''Q1 2025'',
      total_revenue = Some ''$21.6B'', earnings_per_share = Some ''$1.96'',
      net_income = None, operating_income = None, gross_margin = None,
      operating_expenses = None, buybacks_and_dividends = None\<rparr>"

definition long_text :: string where
  "long_text = replicate 100 CHR ''x''"

section \<open>The retry policy\<close>

text \<open>
  What a call can throw: an \<open>Anthropic.APIError\<close> with its HTTP status (absent for
  connection errors) and message, or a plain \<open>Error\<close> with its message.
\<close>

datatype error = APIError "nat option" string | Error string

definition isRateLimit :: "error \<Rightarrow> bool" where
  "isRateLimit error = (case error of APIError status _ \<Rightarrow> status = Some 429 | Error _ \<Rightarrow> False)"

text \<open>The decimal numeral that a template string prints for a status.\<close>

fun decimal :: "nat \<Rightarrow> string \<Rightarrow> string" where
  "decimal n acc =
     (let acc' = char_of (n mod 10 + 48) # acc
      in if n div 10 = 0 then acc' else decimal (n div 10) acc')"

definition string_of_status :: "nat option \<Rightarrow> string" where
  "string_of_status status = (case status of None \<Rightarrow> ''undefined'' | Some n \<Rightarrow> decimal n [])"

text \<open>\<open>throwAPIError\<close> always throws; the model returns the error it throws.\<close>

definition throwAPIError :: "error \<Rightarrow> error" where
  "throwAPIError error =
     (case error of
        APIError status message \<Rightarrow>
          if status = Some 401
          then Error ''Invalid Anthropic API key. Check your ANTHROPIC_API_KEY environment variable.''
          else if status = Some 400
          then Error (''Claude API request error: '' @ message)
          else Error (''Claude API error ('' @ string_of_status status @ ''): '' @ message)
      | Error _ \<Rightarrow> error)"

definition RETRY_MAX_ATTEMPTS :: nat where
  "RETRY_MAX_ATTEMPTS = 4"

text \<open>
  The invocation \<open>fn\<close> is called afresh on every attempt; \<open>fn k\<close> is what the call does
  that has \<open>k\<close> calls before it.  The loop returns what \<open>withRetry\<close> returns or throws,
  and the number of calls of \<open>fn\<close> made.  The delay between two attempts is not part
  of the model.
\<close>

function withRetry_loop ::
  "(nat \<Rightarrow> error + 'a) \<Rightarrow> nat \<Rightarrow> nat \<Rightarrow> nat \<Rightarrow> (error + 'a) \<times> nat" where
  "withRetry_loop fn maxAttempts attempt calls =
     (if attempt \<le> maxAttempts
      then (case fn calls of
              Inr v \<Rightarrow> (Inr v, calls + 1)
            | Inl error \<Rightarrow>
                if isRateLimit error \<and> attempt < maxAttempts
                then withRetry_loop fn maxAttempts (attempt + 1) (calls + 1)
                else (Inl (throwAPIError error), calls + 1))
      else (Inl (Error ''Max retries exceeded''), calls))"
  by pat_completeness auto
termination
  by (relation "measure (\<lambda>(fn, maxAttempts, attempt, calls). maxAttempts + 1 - attempt)") auto

definition withRetry :: "(nat \<Rightarrow> error + 'a) \<Rightarrow> nat \<Rightarrow> (error + 'a) \<times> nat" where
  "withRetry fn maxAttempts = withRetry_loop fn maxAttempts 1 0"

definition rate_limited :: "error + 'a \<Rightarrow> bool" where
  "rate_limited r = (case r of Inl e \<Rightarrow> isRateLimit e | Inr _ \<Rightarrow> False)"

text \<open>Sample invocations: two rate-limit failures then a reply; rate-limited for ever; a bad key.\<close>

definition flaky_twice :: "nat \<Rightarrow> error + string" where
  "flaky_twice k = (if k < 2 then Inl (APIError (Some 429) ''rate limited'') else Inr ''reply'')"

definition always_limited :: "nat \<Rightarrow> error + string" where
  "always_limited k = Inl (APIError (Some 429) ''rate limited'')"

definition unauthorized :: "nat \<Rightarrow> error + string" where
  "unauthorized k = Inl (APIError (Some 401) ''bad key'')"

section \<open>The admission controller\<close>

text \<open>
  The module keeps a \<open>Map\<close> from client key to an entry holding the timestamps of the
  admitted requests.  \<open>WINDOW_MS\<close> and \<open>MAX_REQUESTS\<close> are read from the environment
  once, so they are parameters here, as is the clock reading \<open>now\<close> of each call.  On a
  denial the source reads \<open>entry.timestamps[0]\<close>; should the list be empty (possible only
  when \<open>MAX_REQUESTS\<close> is not positive) that is \<open>undefined\<close> and the arithmetic yields
  \<open>NaN\<close>.
\<close>

datatype retry_after = RetryNull | RetryNaN | RetryMs int

record RateLimitResult =
  allowed :: bool
  remaining :: int
  retryAfterMs :: retry_after

type_synonym store = "string \<rightharpoonup> int list"

definition timestamps_of :: "store \<Rightarrow> string \<Rightarrow> int list" where
  "timestamps_of store ip = (case store ip of None \<Rightarrow> [] | Some ts \<Rightarrow> ts)"

definition checkRateLimit ::
  "int \<Rightarrow> int \<Rightarrow> int \<Rightarrow> string \<Rightarrow> store \<Rightarrow> RateLimitResult \<times> store" where
  "checkRateLimit WINDOW_MS MAX_REQUESTS now ip store =
     (let timestamps = filter (\<lambda>t. now - t < WINDOW_MS) (timestamps_of store ip)
      in if int (length timestamps) \<ge> MAX_REQUESTS
         then (\<lparr>allowed = False, remaining = 0,
                retryAfterMs = (case timestamps of
                                  [] \<Rightarrow> RetryNaN
                                | oldest # _ \<Rightarrow> RetryMs (WINDOW_MS - (now - oldest)))\<rparr>,
               store(ip \<mapsto> timestamps))
         else (\<lparr>allowed = True,
                remaining = MAX_REQUESTS - int (length (timestamps @ [now])),
                retryAfterMs = RetryNull\<rparr>,
               store(ip \<mapsto> timestamps @ [now])))"

text \<open>The periodic sweep started by \<open>startCleanup\<close>.\<close>

definition cleanup :: "int \<Rightarrow> int \<Rightarrow> store \<Rightarrow> store" where
  "cleanup WINDOW_MS now store =
     (\<lambda>key. case store key of
               None \<Rightarrow> None
             | Some ts \<Rightarrow>
                 (let ts' = filter (\<lambda>t. now - t < WINDOW_MS) ts
                  in if ts' = [] then None else Some ts'))"

text \<open>
  A history of the module: checks and sweeps, each with its clock reading.  Running a
  history from the empty map gives the log of the checks (key, time, verdict) and the
  final map.
\<close>

datatype event = Check string int | Sweep int

fun event_time :: "event \<Rightarrow> int" where
  "event_time (Check ip now) = now"
| "event_time (Sweep now) = now"

fun rate_step ::
  "int \<Rightarrow> int \<Rightarrow> (string \<times> int \<times> bool) list \<times> store \<Rightarrow> event
     \<Rightarrow> (string \<times> int \<times> bool) list \<times> store" where
  "rate_step W M (hist, store) (Check ip now) =
     (let (res, store') = checkRateLimit W M now ip store
      in (hist @ [(ip, now, allowed res)], store'))"
| "rate_step W M (hist, store) (Sweep now) = (hist, cleanup W now store)"

definition rate_run ::
  "int \<Rightarrow> int \<Rightarrow> event list \<Rightarrow> (string \<times> int \<times> bool) list \<times> store" where
  "rate_run W M evs = foldl (rate_step W M) ([], Map.empty) evs"

text \<open>The admitted requests of a key in a log that lie within the window at time \<open>now\<close>.\<close>

definition admitted_in_window ::
  "int \<Rightarrow> int \<Rightarrow> string \<Rightarrow> (string \<times> int \<times> bool) list \<Rightarrow> int list" where
  "admitted_in_window W now ip hist =
     filter (\<lambda>t. now - t < W) (map (\<lambda>(k, t, a). t) (filter (\<lambda>(k, t, a). k = ip \<and> a) hist))"

text \<open>
  What links the map to the history: at any time from \<open>T\<close> on, the stored timestamps of a
  key that are still in the window are the admitted requests of that key in the window,
  and no stored timestamp is later than \<open>T\<close>.
\<close>

definition window_inv :: "int \<Rightarrow> int \<Rightarrow> (string \<times> int \<times> bool) list \<times> store \<Rightarrow> bool" where
  "window_inv W T s =
     (\<forall>ip. (\<forall>now\<ge>T. filter (\<lambda>t. now - t < W) (timestamps_of (snd s) ip)
                        = admitted_in_window W now ip (fst s))
         \<and> (\<forall>t \<in> set (timestamps_of (snd s) ip). t \<le> T))"

text \<open>A sample history: three checks of one client within a second.\<close>

definition sample_history :: "event list" where
  "sample_history = [Check ''10.0.0.1'' 0, Check ''10.0.0.1'' 400, Check ''10.0.0.1'' 900]"

section \<open>The batch coordinator\<close>

text \<open>
  \<open>processBatch\<close> starts \<open>Math.min(concurrency, items.length)\<close> workers over a shared
  \<open>nextIndex\<close> and a shared \<open>results\<close> array and awaits them with \<open>Promise.all\<close>.
  A worker runs without interruption from one \<open>await\<close> to the next, so it is either
  suspended on the call for one index, or has left its loop, or has thrown.  The item
  function \<open>fn\<close> either throws (\<open>Inl\<close>) or returns (\<open>Inr\<close>).  A slot of
  \<open>new Array(n)\<close> that was never assigned is \<open>None\<close>.
\<close>

datatype 'e worker = Awaiting nat | Finished | Thrown 'e

record ('r, 'e) batch_state =
  results :: "'r option list"
  nextIndex :: nat
  workers :: "'e worker list"
  rejected :: "'e option"

text \<open>
  The head of the worker's \<open>while\<close> loop: take the next index and suspend on its call, or
  leave the loop.  It gives the worker's new state and the new \<open>nextIndex\<close>.
\<close>

definition worker_loop :: "nat \<Rightarrow> nat \<Rightarrow> 'e worker \<times> nat" where
  "worker_loop n next = (if next < n then (Awaiting next, next + 1) else (Finished, next))"

text \<open>\<open>Array.from\<close> calls \<open>worker()\<close>, which runs up to its first \<open>await\<close>.\<close>

definition start_worker :: "nat \<Rightarrow> ('r, 'e) batch_state \<Rightarrow> ('r, 'e) batch_state" where
  "start_worker n s =
     (let (w, next) = worker_loop n (nextIndex s)
      in s\<lparr>workers := workers s @ [w], nextIndex := next\<rparr>)"

definition batch_start :: "nat \<Rightarrow> int \<Rightarrow> ('r, 'e) batch_state" where
  "batch_start n concurrency =
     (start_worker n ^^ nat (min concurrency (int n)))
        \<lparr>results = replicate n None, nextIndex = 0, workers = [], rejected = None\<rparr>"

text \<open>
  The call awaited by worker \<open>w\<close> settles and the worker resumes: it stores the result and
  goes round its loop, or the rejection leaves the worker's own promise rejected.
  \<open>Promise.all\<close> rejects with the first of these rejections.
\<close>

definition settle ::
  "('a \<Rightarrow> 'e + 'r) \<Rightarrow> 'a list \<Rightarrow> ('r, 'e) batch_state \<Rightarrow> nat \<Rightarrow> ('r, 'e) batch_state" where
  "settle fn items s w =
     (if w < length (workers s)
      then (case workers s ! w of
              Awaiting index \<Rightarrow>
                (case fn (items ! index) of
                   Inr r \<Rightarrow>
                     (let (w', next) = worker_loop (length items) (nextIndex s)
                      in s\<lparr>results := (results s)[index := Some r],
                            workers := (workers s)[w := w'], nextIndex := next\<rparr>)
                 | Inl e \<Rightarrow>
                     s\<lparr>workers := (workers s)[w := Thrown e],
                       rejected := (case rejected s of None \<Rightarrow> Some e | Some e' \<Rightarrow> Some e')\<rparr>)
            | Finished \<Rightarrow> s
            | Thrown e \<Rightarrow> s)
      else s)"

text \<open>
  A completion order is the list of the workers whose awaited calls settle, in the order
  in which they settle.  \<open>processBatch\<close> under a completion order has thrown, has
  returned the array, or is still pending (\<open>None\<close>).
\<close>

definition batch_run ::
  "('a \<Rightarrow> 'e + 'r) \<Rightarrow> 'a list \<Rightarrow> int \<Rightarrow> nat list \<Rightarrow> ('r, 'e) batch_state" where
  "batch_run fn items concurrency order =
     foldl (settle fn items) (batch_start (length items) concurrency) order"

definition batch_outcome :: "('r, 'e) batch_state \<Rightarrow> ('e + 'r option list) option" where
  "batch_outcome s =
     (case rejected s of
        Some e \<Rightarrow> Some (Inl e)
      | None \<Rightarrow> if list_all (\<lambda>w. w = Finished) (workers s) then Some (Inr (results s)) else None)"

definition processBatch ::
  "'a list \<Rightarrow> ('a \<Rightarrow> 'e + 'r) \<Rightarrow> int \<Rightarrow> nat list \<Rightarrow> ('e + 'r option list) option" where
  "processBatch items fn concurrency order = batch_outcome (batch_run fn items concurrency order)"


text \<open>The batch route: the array as the response, or one error response for the request.\<close>

datatype ('r, 'e) response = Json "'r option list" | Status500 'e


text \<open>A sample item function: document 13 cannot be extracted, the others yield ten times their number.\<close>

definition sample_fn :: "nat \<Rightarrow> string + nat" where
  "sample_fn x = (if x = 13 then Inl ''Failed to parse extraction response as JSON'' else Inr (10 * x))"

text \<open>
  What every reachable state of a batch satisfies: the array keeps its length, a filled
  slot holds what \<open>fn\<close> returned for that index, every index below \<open>nextIndex\<close> is
  filled or being awaited while no worker has thrown, and a worker leaves its loop only
  once \<open>nextIndex\<close> has reached the number of items.
\<close>

definition batch_inv :: "('a \<Rightarrow> 'e + 'r) \<Rightarrow> 'a list \<Rightarrow> ('r, 'e) batch_state \<Rightarrow> bool" where
  "batch_inv fn items s =
     (length (results s) = length items
      \<and> nextIndex s \<le> length items
      \<and> (\<forall>i < length items. \<forall>r. results s ! i = Some r \<longrightarrow> fn (items ! i) = Inr r)
      \<and> (\<forall>i. Awaiting i \<in> set (workers s) \<longrightarrow> i < nextIndex s)
      \<and> (rejected s = None \<longrightarrow>
            (\<forall>e. Thrown e \<notin> set (workers s))
          \<and> (\<forall>i < nextIndex s. results s ! i \<noteq> None \<or> Awaiting i \<in> set (workers s))
          \<and> (Finished \<in> set (workers s) \<longrightarrow> nextIndex s = length items)))"

text \<open>The work left in a batch: indices not yet taken, and calls being awaited.\<close>

definition batch_left :: "nat \<Rightarrow> ('r, 'e) batch_state \<Rightarrow> nat" where
  "batch_left n s = (n - nextIndex s) + length (filter (\<lambda>w. w \<noteq> Finished) (workers s))"

section \<open>The concurrency pools\<close>

text \<open>
  \<open>Semaphore.run\<close> has three uninterrupted pieces.  The call itself tests
  \<open>running >= concurrency\<close>: when full it pushes its resolver on the queue and suspends,
  otherwise it increments \<open>running\<close> and starts \<open>fn\<close>.  A suspended caller whose
  resolver has been called resumes later, as a job of its own, and then increments
  \<open>running\<close> and starts \<open>fn\<close> without testing again.  When \<open>fn\<close> settles, the
  \<open>finally\<close> block decrements \<open>running\<close> and calls the resolver at the head of the
  queue, if any.  Callers are numbered; the queue holds the numbers of the callers whose
  resolvers it holds.
\<close>

datatype task_state = NotStarted | Waiting | Woken | Holding | Released

record semaphore =
  running :: int
  queue :: "nat list"
  tasks :: "nat \<Rightarrow> task_state"

datatype sem_event = Call nat | Resume nat | Settle nat

definition new_Semaphore :: semaphore where
  "new_Semaphore = \<lparr>running = 0, queue = [], tasks = (\<lambda>_. NotStarted)\<rparr>"

fun sem_step :: "int \<Rightarrow> semaphore \<Rightarrow> sem_event \<Rightarrow> semaphore" where
  "sem_step concurrency s (Call t) =
     (if tasks s t = NotStarted
      then (if running s \<ge> concurrency
            then s\<lparr>queue := queue s @ [t], tasks := (tasks s)(t := Waiting)\<rparr>
            else s\<lparr>running := running s + 1, tasks := (tasks s)(t := Holding)\<rparr>)
      else s)"
| "sem_step concurrency s (Resume t) =
     (if tasks s t = Woken
      then s\<lparr>running := running s + 1, tasks := (tasks s)(t := Holding)\<rparr>
      else s)"
| "sem_step concurrency s (Settle t) =
     (if tasks s t = Holding
      then (case queue s of
              [] \<Rightarrow> s\<lparr>running := running s - 1, tasks := (tasks s)(t := Released)\<rparr>
            | h # rest \<Rightarrow>
                s\<lparr>running := running s - 1, queue := rest,
                  tasks := (tasks s)(t := Released, h := Woken)\<rparr>)
      else s)"

definition sem_run :: "int \<Rightarrow> sem_event list \<Rightarrow> semaphore" where
  "sem_run concurrency evs = foldl (sem_step concurrency) new_Semaphore evs"

definition TEXT_CONCURRENCY :: int where
  "TEXT_CONCURRENCY = 3"

definition VISION_CONCURRENCY :: int where
  "VISION_CONCURRENCY = 1"

fun is_Settle :: "sem_event \<Rightarrow> bool" where
  "is_Settle (Settle t) = True"
| "is_Settle _ = False"

section \<open>Parsing the oracle's reply\<close>

text \<open>
  The reply is the \<open>content\<close> of an \<open>Anthropic.Message\<close>, a list of blocks of which the
  first text block is read.
\<close>

datatype content_block = TextBlock string | OtherBlock

fun is_text :: "content_block \<Rightarrow> bool" where
  "is_text (TextBlock _) = True"
| "is_text OtherBlock = False"

text \<open>
  The match of \<open>/\{[\s\S]*\}/\<close>: the leftmost match starts at the first opening brace,
  and the greedy star runs to the last closing brace after it.  If no closing brace
  follows the first opening one, none follows a later one either, and there is no match.
\<close>

definition match_braces :: "string \<Rightarrow> string option" where
  "match_braces s =
     (let from_open = dropWhile (\<lambda>c. c \<noteq> CHR ''{'') s;
          to_close = rev (dropWhile (\<lambda>c. c \<noteq> CHR ''}'') (rev from_open))
      in if to_close = [] then None else Some to_close)"

text \<open>
  \<open>parseResponse\<close>, with \<open>JSON.parse\<close> as a parameter: \<open>None\<close> when it throws.  The cast
  \<open>as ExtractedData\<close> does nothing at run time, so the parsed value is returned as it is.
\<close>

definition parse_failure :: error where
  "parse_failure = Error ''Failed to parse extraction response as JSON''"

definition parseResponse :: "(string \<Rightarrow> 'v option) \<Rightarrow> content_block list \<Rightarrow> error + 'v" where
  "parseResponse JSON_parse content =
     (case find is_text content of
        None \<Rightarrow> Inl (Error ''No text response from Claude'')
      | Some OtherBlock \<Rightarrow> Inl (Error ''No text response from Claude'')
      | Some (TextBlock text) \<Rightarrow>
          (case JSON_parse text of
             Some parsed \<Rightarrow> Inr parsed
           | None \<Rightarrow>
               (case match_braces text of
                  Some jsonMatch \<Rightarrow>
                    (case JSON_parse jsonMatch of
                       Some parsed \<Rightarrow> Inr parsed
                     | None \<Rightarrow> Inl parse_failure)
                | None \<Rightarrow> Inl parse_failure)))"

text \<open>
  The invocation that \<open>extractFromText\<close> and \<open>extractFromFullPDF\<close> hand to \<open>withRetry\<close>:
  \<open>client.messages.create(...).then(parseResponse)\<close>, where \<open>oracle k\<close> is what the
  \<open>k\<close>-th request to the service does.
\<close>

definition create_then_parse ::
  "(string \<Rightarrow> 'v option) \<Rightarrow> (nat \<Rightarrow> error + content_block list) \<Rightarrow> nat \<Rightarrow> error + 'v" where
  "create_then_parse JSON_parse oracle k =
     (case oracle k of Inl e \<Rightarrow> Inl e | Inr content \<Rightarrow> parseResponse JSON_parse content)"

text \<open>
  The specification's wording of the second attempt, for comparison: the first substring
  that opens with a brace and closes with the brace that balances it.
\<close>

fun balanced_rest :: "nat \<Rightarrow> string \<Rightarrow> string option" where
  "balanced_rest depth [] = None"
| "balanced_rest depth (c # cs) =
     (if c = CHR ''}'' \<and> depth = 0 then Some [c]
      else map_option ((#) c)
             (balanced_rest (if c = CHR ''{'' then depth + 1
                             else if c = CHR ''}'' then depth - 1 else depth) cs))"

fun first_balanced_object :: "string \<Rightarrow> string option" where
  "first_balanced_object [] = None"
| "first_balanced_object (c # cs) =
     (if c = CHR ''{''
      then (case balanced_rest 0 cs of
              Some rest \<Rightarrow> Some (c # rest)
            | None \<Rightarrow> first_balanced_object cs)
      else first_balanced_object cs)"

subsection \<open>A model of \<open>JSON.parse\<close>\<close>

text \<open>
  The theorems about \<open>parseResponse\<close> hold for any \<open>JSON.parse\<close>; to run it on sample
  replies, here is the JSON grammar as \<open>JSON.parse\<close> accepts it.  Strings are decoded to
  their code units; a number is kept as its literal; an object keeps its members in source
  order, a repeated key keeping its first place and its last value.
\<close>

datatype json =
  JNull | JBool bool | JNumber string | JString "nat list"
| JArray "json list" | JObject "(nat list \<times> json) list"

datatype token =
  TLBrace | TRBrace | TLBracket | TRBracket | TColon | TComma | TString "nat list" | TScalar json

datatype lex_mode =
  Normal
| InString "nat list"
| InEscape "nat list"
| InUnicode "nat list" nat nat
| InNumber string
| InLiteral string json

definition is_digit :: "char \<Rightarrow> bool" where
  "is_digit c = (48 \<le> (of_char c :: nat) \<and> (of_char c :: nat) \<le> 57)"

definition hex_value :: "char \<Rightarrow> nat option" where
  "hex_value c =
     (let n = (of_char c :: nat)
      in if 48 \<le> n \<and> n \<le> 57 then Some (n - 48)
         else if 97 \<le> n \<and> n \<le> 102 then Some (n - 87)
         else if 65 \<le> n \<and> n \<le> 70 then Some (n - 55)
         else None)"

text \<open>The JSON number grammar: sign, integer part without leading zero, fraction, exponent.\<close>

definition number_exponent_ok :: "string \<Rightarrow> bool" where
  "number_exponent_ok s =
     (case s of
        [] \<Rightarrow> True
      | c # cs \<Rightarrow>
          (c = CHR ''e'' \<or> c = CHR ''E'')
          \<and> (let ds = (case cs of
                          [] \<Rightarrow> []
                        | d # ds' \<Rightarrow> if d = CHR ''+'' \<or> d = CHR ''-'' then ds' else cs)
             in ds \<noteq> [] \<and> list_all is_digit ds))"

definition number_fraction_ok :: "string \<Rightarrow> bool" where
  "number_fraction_ok s =
     (case s of
        [] \<Rightarrow> True
      | c # cs \<Rightarrow>
          if c = CHR ''.''
          then takeWhile is_digit cs \<noteq> [] \<and> number_exponent_ok (dropWhile is_digit cs)
          else number_exponent_ok s)"

definition number_ok :: "string \<Rightarrow> bool" where
  "number_ok s =
     (let u = (case s of [] \<Rightarrow> [] | c # cs \<Rightarrow> if c = CHR ''-'' then cs else s)
      in case u of
           [] \<Rightarrow> False
         | c # cs \<Rightarrow>
             if c = CHR ''0'' then number_fraction_ok cs
             else is_digit c \<and> number_fraction_ok (dropWhile is_digit cs))"

definition is_number_char :: "char \<Rightarrow> bool" where
  "is_number_char c =
     (is_digit c \<or> c = CHR ''-'' \<or> c = CHR ''+'' \<or> c = CHR ''.'' \<or> c = CHR ''e'' \<or> c = CHR ''E'')"

text \<open>One character of input outside a string, number or literal.\<close>

definition lex_normal :: "char \<Rightarrow> (token list \<times> lex_mode) option" where
  "lex_normal c =
     (if c = CHR '' '' \<or> c = CHR 0x09 \<or> c = CHR 0x0A \<or> c = CHR 0x0D then Some ([], Normal)
      else if c = CHR ''{'' then Some ([TLBrace], Normal)
      else if c = CHR ''}'' then Some ([TRBrace], Normal)
      else if c = CHR ''['' then Some ([TLBracket], Normal)
      else if c = CHR '']'' then Some ([TRBracket], Normal)
      else if c = CHR '':'' then Some ([TColon], Normal)
      else if c = CHR '','' then Some ([TComma], Normal)
      else if c = CHR 0x22 then Some ([], InString [])
      else if c = CHR ''t'' then Some ([], InLiteral ''rue'' (JBool True))
      else if c = CHR ''f'' then Some ([], InLiteral ''alse'' (JBool False))
      else if c = CHR ''n'' then Some ([], InLiteral ''ull'' JNull)
      else if c = CHR ''-'' \<or> is_digit c then Some ([], InNumber [c])
      else None)"

definition escape_value :: "char \<Rightarrow> nat option" where
  "escape_value c =
     (if c = CHR 0x22 then Some 0x22
      else if c = CHR 0x5C then Some 0x5C
      else if c = CHR ''/'' then Some 0x2F
      else if c = CHR ''b'' then Some 0x08
      else if c = CHR ''f'' then Some 0x0C
      else if c = CHR ''n'' then Some 0x0A
      else if c = CHR ''r'' then Some 0x0D
      else if c = CHR ''t'' then Some 0x09
      else None)"

fun lex_char :: "lex_mode \<Rightarrow> char \<Rightarrow> (token list \<times> lex_mode) option" where
  "lex_char Normal c = lex_normal c"
| "lex_char (InString acc) c =
     (if c = CHR 0x22 then Some ([TString (rev acc)], Normal)
      else if c = CHR 0x5C then Some ([], InEscape acc)
      else if (of_char c :: nat) < 0x20 then None
      else Some ([], InString (of_char c # acc)))"
| "lex_char (InEscape acc) c =
     (if c = CHR ''u'' then Some ([], InUnicode acc 0 0)
      else (case escape_value c of
              Some v \<Rightarrow> Some ([], InString (v # acc))
            | None \<Rightarrow> None))"
| "lex_char (InUnicode acc count v) c =
     (case hex_value c of
        None \<Rightarrow> None
      | Some h \<Rightarrow>
          if count = 3 then Some ([], InString ((16 * v + h) # acc))
          else Some ([], InUnicode acc (count + 1) (16 * v + h)))"
| "lex_char (InNumber acc) c =
     (if is_number_char c then Some ([], InNumber (c # acc))
      else if number_ok (rev acc)
      then (case lex_normal c of
              Some (toks, mode) \<Rightarrow> Some (TScalar (JNumber (rev acc)) # toks, mode)
            | None \<Rightarrow> None)
      else None)"
| "lex_char (InLiteral expected v) c =
     (case expected of
        [] \<Rightarrow> None
      | e # es \<Rightarrow>
          if c = e then (if es = [] then Some ([TScalar v], Normal) else Some ([], InLiteral es v))
          else None)"

fun lex :: "lex_mode \<Rightarrow> string \<Rightarrow> token list option" where
  "lex mode [] =
     (case mode of
        Normal \<Rightarrow> Some []
      | InNumber acc \<Rightarrow> if number_ok (rev acc) then Some [TScalar (JNumber (rev acc))] else None
      | _ \<Rightarrow> None)"
| "lex mode (c # cs) =
     (case lex_char mode c of
        None \<Rightarrow> None
      | Some (toks, mode') \<Rightarrow> map_option ((@) toks) (lex mode' cs))"

text \<open>The parser proper: a stack of the arrays and objects that are open.\<close>

datatype frame = InArray "json list" | InObject "(nat list \<times> json) list" "nat list option"

datatype expect = Value | ValueOrClose | KeyOrClose | Key | Colon | CommaOrClose | End

fun obj_put :: "nat list \<Rightarrow> json \<Rightarrow> (nat list \<times> json) list \<Rightarrow> (nat list \<times> json) list" where
  "obj_put k v [] = [(k, v)]"
| "obj_put k v ((k', v') # ms) = (if k = k' then (k, v) # ms else (k', v') # obj_put k v ms)"

type_synonym parser = "frame list \<times> expect \<times> json option"

fun deliver :: "json \<Rightarrow> frame list \<Rightarrow> parser option" where
  "deliver v [] = Some ([], End, Some v)"
| "deliver v (InArray elems # st) = Some (InArray (v # elems) # st, CommaOrClose, None)"
| "deliver v (InObject ms (Some k) # st) = Some (InObject (obj_put k v ms) None # st, CommaOrClose, None)"
| "deliver v (InObject ms None # st) = None"

definition parse_value_token :: "token \<Rightarrow> frame list \<Rightarrow> parser option" where
  "parse_value_token tok st =
     (case tok of
        TScalar v \<Rightarrow> deliver v st
      | TString s \<Rightarrow> deliver (JString s) st
      | TLBracket \<Rightarrow> Some (InArray [] # st, ValueOrClose, None)
      | TLBrace \<Rightarrow> Some (InObject [] None # st, KeyOrClose, None)
      | _ \<Rightarrow> None)"

definition parse_key_token :: "token \<Rightarrow> frame list \<Rightarrow> parser option" where
  "parse_key_token tok st =
     (case (tok, st) of
        (TString k, InObject ms None # st') \<Rightarrow> Some (InObject ms (Some k) # st', Colon, None)
      | _ \<Rightarrow> None)"

definition parse_close_token :: "token \<Rightarrow> frame list \<Rightarrow> parser option" where
  "parse_close_token tok st =
     (case (tok, st) of
        (TRBracket, InArray elems # st') \<Rightarrow> deliver (JArray (rev elems)) st'
      | (TRBrace, InObject ms None # st') \<Rightarrow> deliver (JObject ms) st'
      | _ \<Rightarrow> None)"

fun parse_token :: "parser \<Rightarrow> token \<Rightarrow> parser option" where
  "parse_token (st, Value, r) tok = parse_value_token tok st"
| "parse_token (st, ValueOrClose, r) tok =
     (if tok = TRBracket then parse_close_token tok st else parse_value_token tok st)"
| "parse_token (st, KeyOrClose, r) tok =
     (if tok = TRBrace then parse_close_token tok st else parse_key_token tok st)"
| "parse_token (st, Key, r) tok = parse_key_token tok st"
| "parse_token (st, Colon, r) tok = (if tok = TColon then Some (st, Value, None) else None)"
| "parse_token (st, CommaOrClose, r) tok =
     (if tok = TComma
      then (case st of
              InArray elems # st' \<Rightarrow> Some (st, Value, None)
            | InObject ms None # st' \<Rightarrow> Some (st, Key, None)
            | _ \<Rightarrow> None)
      else parse_close_token tok st)"
| "parse_token (st, End, r) tok = None"

fun parse_tokens :: "parser \<Rightarrow> token list \<Rightarrow> json option" where
  "parse_tokens (st, e, r) [] = (if e = End then r else None)"
| "parse_tokens p (tok # toks) =
     (case parse_token p tok of None \<Rightarrow> None | Some p' \<Rightarrow> parse_tokens p' toks)"

definition JSON_parse :: "string \<Rightarrow> json option" where
  "JSON_parse s =
     (case lex Normal s of None \<Rightarrow> None | Some toks \<Rightarrow> parse_tokens ([], Value, None) toks)"

section \<open>Validation\<close>



















section \<open>Escalation\<close>

lemma trim_length_le: "length (trim s) \<le> length s"
proof -
  have "length (trim s) = length (dropWhile js_whitespace (rev (dropWhile js_whitespace s)))"
    by (simp add: trim_def)
  also have "\<dots> \<le> length (rev (dropWhile js_whitespace s))"
    by (rule length_dropWhile_le)
  also have "\<dots> \<le> length s"
    by (simp add: length_dropWhile_le)
  finally show ?thesis .
qed

text \<open>
  C1.  A record returned by the cheap tier is escalated exactly when the company name is
  missing (\<open>null\<close> or empty) or fewer than two of the seven financial fields are
  non-null: that is what \<open>needsFallback\<close> computes, and a run of the strategy whose
  text is long enough and whose cheap tier returned \<open>d\<close> calls the expensive tier
  exactly in that case.  Otherwise the run makes the cheap call only and returns \<open>d\<close>.
\<close>

theorem needsFallback_escalation:
  assumes "extractTextFromPDF doc = Inr text" and "\<not> length (trim text) < 100"
    and "extractFromText text = Inr d"
  shows "needsFallback d =
           (falsy (company_name d) \<or> length (filter (\<lambda>v. v \<noteq> None) (financialFields d)) < 2)
       \<and> (VisionTier doc
             \<in> set (fst (extractFromPDF extractTextFromPDF extractFromText extractFromFullPDF doc)))
           = (falsy (company_name d) \<or> length (filter (\<lambda>v. v \<noteq> None) (financialFields d)) < 2)
       \<and> (\<not> falsy (company_name d) \<and> 2 \<le> length (filter (\<lambda>v. v \<noteq> None) (financialFields d))
            \<longrightarrow> extractFromPDF extractTextFromPDF extractFromText extractFromFullPDF doc
                 = ([TextTier text], Inr d))"
proof -
  have nf: "needsFallback d =
      (falsy (company_name d) \<or> length (filter (\<lambda>v. v \<noteq> None) (financialFields d)) < 2)"
    by (simp add: needsFallback_def FINANCIAL_FIELDS_def financialFields_def)
  have run_eq: "extractFromPDF extractTextFromPDF extractFromText extractFromFullPDF doc =
     (if needsFallback d
      then ([TextTier text, VisionTier doc], extractFromFullPDF doc)
      else ([TextTier text], Inr d))"
    using assms by (simp add: extractFromPDF_def)
  show ?thesis
    unfolding run_eq using nf by auto
qed

theorem needsFallback_escalation_witness:
  "needsFallback sample_record = False
   \<and> extractFromPDF (\<lambda>_. Inr long_text) (\<lambda>_. Inr sample_record) (\<lambda>_. (Inl ''unused'' :: string + ExtractedData)) (0::nat)
       = ([TextTier long_text], Inr sample_record)"
proof -
  have t: "\<not> length (trim long_text) < 100"
    by (simp add: long_text_def trim_def js_whitespace_def)
  have p: "\<not> falsy (company_name sample_record)
      \<and> 2 \<le> length (filter (\<lambda>v. v \<noteq> None) (financialFields sample_record))"
    by (simp add: sample_record_def falsy_def financialFields_def)
  from needsFallback_escalation [of "\<lambda>_. Inr long_text" "0::nat" long_text "\<lambda>_. Inr sample_record"
      sample_record "\<lambda>_. (Inl ''unused'' :: string + ExtractedData)", OF refl t refl] p
  show ?thesis by simp
qed

text \<open>
  The first revision of the extractor had another threshold: it fell back unless at least
  four of the seven fields were found, so it differs from the present one on records with
  two or three fields.
\<close>

lemma needsFallback_v1_threshold:
  "needsFallback_v1 d =
     (falsy (company_name d) \<or> length (filter (\<lambda>v. v \<noteq> None) (financialFields d)) < 4)"
proof -
  have "length (filter (\<lambda>v. v = None) (financialFields d))
      + length (filter (\<lambda>v. v \<noteq> None) (financialFields d)) = 7"
    using sum_length_filter_compl [of "\<lambda>v. v = None" "financialFields d"]
    by (simp add: financialFields_def)
  moreover have "needsFallback_v1 d =
      (falsy (company_name d) \<or> 4 \<le> length (filter (\<lambda>v. v = None) (financialFields d)))"
    by (simp add: needsFallback_v1_def FINANCIAL_FIELDS_def financialFields_def)
  ultimately show ?thesis by auto
qed

lemma needsFallback_v1_differs:
  "needsFallback_v1 sample_record \<and> \<not> needsFallback sample_record"
  by (simp add: needsFallback_v1_def needsFallback_def FINANCIAL_FIELDS_def sample_record_def
      falsy_def)

text \<open>
  C9.  When the text extractor throws, or returns a text shorter than 100 characters, the
  run consists of one call of the expensive tier on the document: the cheap tier is never
  called, and the outcome of the run is the outcome of the expensive tier.  (The source
  compares the length of the trimmed text, which is at most the length of the text.)
\<close>

theorem short_text_skips_cheap_tier:
  assumes "(\<exists>e. extractTextFromPDF doc = Inl e)
         \<or> (\<exists>text. extractTextFromPDF doc = Inr text \<and> length text < 100)"
  shows "extractFromPDF extractTextFromPDF extractFromText extractFromFullPDF doc
           = ([VisionTier doc], extractFromFullPDF doc)
       \<and> \<not> (\<exists>c \<in> set (fst (extractFromPDF extractTextFromPDF extractFromText
                                     extractFromFullPDF doc)). is_TextTier c)"
proof -
  have run_eq: "extractFromPDF extractTextFromPDF extractFromText extractFromFullPDF doc
      = ([VisionTier doc], extractFromFullPDF doc)"
    using assms
  proof (elim disjE exE conjE)
    fix e assume "extractTextFromPDF doc = Inl e"
    then show ?thesis by (simp add: extractFromPDF_def)
  next
    fix tx assume t: "extractTextFromPDF doc = Inr tx" and "length tx < 100"
    then have "length (trim tx) < 100"
      using trim_length_le [of tx] by linarith
    with t show ?thesis by (simp add: extractFromPDF_def)
  qed
  then show ?thesis by (simp add: is_TextTier_def)
qed

theorem short_text_skips_cheap_tier_witness:
  "extractFromPDF (\<lambda>_. Inr ''scanned page'') (\<lambda>_. Inr sample_record)
       (\<lambda>_. (Inl ''vision failed'' :: string + ExtractedData)) (7::nat)
     = ([VisionTier 7], Inl ''vision failed'')
   \<and> extractFromPDF (\<lambda>_. Inl ''pdf-parse failed'') (\<lambda>_. Inr sample_record)
       (\<lambda>_. (Inr sample_record :: string + ExtractedData)) (7::nat)
     = ([VisionTier 7], Inr sample_record)"
  using short_text_skips_cheap_tier [of "\<lambda>_. Inr ''scanned page''" "7::nat"
      "\<lambda>_. Inr sample_record" "\<lambda>_. (Inl ''vision failed'' :: string + ExtractedData)"]
    short_text_skips_cheap_tier [of "\<lambda>_. Inl ''pdf-parse failed''" "7::nat"
      "\<lambda>_. Inr sample_record" "\<lambda>_. (Inr sample_record :: string + ExtractedData)"]
  by simp

section \<open>Retry\<close>

declare withRetry_loop.simps [simp del]

lemma withRetry_loop_success:
  "attempt \<le> maxAttempts \<Longrightarrow> fn calls = Inr v
   \<Longrightarrow> withRetry_loop fn maxAttempts attempt calls = (Inr v, calls + 1)"
  by (simp add: withRetry_loop.simps [of fn maxAttempts attempt calls])

lemma withRetry_loop_retry:
  "attempt < maxAttempts \<Longrightarrow> fn calls = Inl e \<Longrightarrow> isRateLimit e
   \<Longrightarrow> withRetry_loop fn maxAttempts attempt calls
       = withRetry_loop fn maxAttempts (attempt + 1) (calls + 1)"
  by (simp add: withRetry_loop.simps [of fn maxAttempts attempt calls])

lemma withRetry_loop_throw:
  "attempt \<le> maxAttempts \<Longrightarrow> fn calls = Inl e \<Longrightarrow> \<not> (isRateLimit e \<and> attempt < maxAttempts)
   \<Longrightarrow> withRetry_loop fn maxAttempts attempt calls = (Inl (throwAPIError e), calls + 1)"
  by (auto simp add: withRetry_loop.simps [of fn maxAttempts attempt calls])

lemma withRetry_loop_calls:
  "calls \<le> snd (withRetry_loop fn maxAttempts attempt calls)
   \<and> (\<forall>k. calls \<le> k \<and> Suc k < snd (withRetry_loop fn maxAttempts attempt calls)
          \<longrightarrow> rate_limited (fn k))"
proof (induction fn maxAttempts attempt calls rule: withRetry_loop.induct)
  case (1 fn maxAttempts attempt calls)
  show ?case
  proof (cases "attempt \<le> maxAttempts")
    case False
    then show ?thesis by (auto simp add: withRetry_loop.simps [of fn maxAttempts attempt calls])
  next
    case le: True
    show ?thesis
    proof (cases "fn calls")
      case (Inr v)
      with le show ?thesis by (auto simp add: withRetry_loop.simps [of fn maxAttempts attempt calls])
    next
      case (Inl e)
      show ?thesis
      proof (cases "isRateLimit e \<and> attempt < maxAttempts")
        case False
        with le Inl show ?thesis
          by (auto simp add: withRetry_loop.simps [of fn maxAttempts attempt calls])
      next
        case True
        with le Inl have eq: "withRetry_loop fn maxAttempts attempt calls
            = withRetry_loop fn maxAttempts (attempt + 1) (calls + 1)"
          by (simp add: withRetry_loop.simps [of fn maxAttempts attempt calls])
        from "1.IH" [OF le Inl True]
        have ih: "calls + 1 \<le> snd (withRetry_loop fn maxAttempts (attempt + 1) (calls + 1))"
          and ih2: "\<And>k. calls + 1 \<le> k \<Longrightarrow>
                Suc k < snd (withRetry_loop fn maxAttempts (attempt + 1) (calls + 1))
                \<Longrightarrow> rate_limited (fn k)"
          by auto
        have here: "rate_limited (fn calls)"
          using Inl True by (simp add: rate_limited_def)
        show ?thesis
          unfolding eq
        proof (intro conjI allI impI)
          show "calls \<le> snd (withRetry_loop fn maxAttempts (attempt + 1) (calls + 1))"
            using ih by simp
        next
          fix k
          assume "calls \<le> k \<and> Suc k < snd (withRetry_loop fn maxAttempts (attempt + 1) (calls + 1))"
          then show "rate_limited (fn k)"
            using here ih2 [of k] by (cases "k = calls") auto
        qed
      qed
    qed
  qed
qed

text \<open>
  C3.  With four attempts, an invocation that fails rate-limited twice and then succeeds
  returns that success after three calls; one that always fails rate-limited fails after
  four calls, with the fourth failure as \<open>throwAPIError\<close> rewrites it; one whose first
  call fails with anything else fails with that error, rewritten likewise, after one call.  For any number of attempts, every call
  but the last one made has failed rate-limited: nothing else is retried.
\<close>

theorem withRetry_policy:
  "(rate_limited (fn 0) \<and> rate_limited (fn 1) \<and> fn 2 = Inr v
      \<longrightarrow> withRetry fn RETRY_MAX_ATTEMPTS = (Inr v, 3))
   \<and> ((\<forall>k. rate_limited (fn k))
      \<longrightarrow> (\<exists>e. fn 3 = Inl e \<and> withRetry fn RETRY_MAX_ATTEMPTS = (Inl (throwAPIError e), 4)))
   \<and> (fn 0 = Inl err \<and> \<not> isRateLimit err
      \<longrightarrow> withRetry fn RETRY_MAX_ATTEMPTS = (Inl (throwAPIError err), 1))
   \<and> (\<forall>k. Suc k < snd (withRetry fn maxAttempts) \<longrightarrow> rate_limited (fn k))"
proof (intro conjI impI)
  assume a: "rate_limited (fn 0) \<and> rate_limited (fn 1) \<and> fn 2 = Inr v"
  then obtain e0 e1 where f: "fn 0 = Inl e0" "isRateLimit e0" "fn 1 = Inl e1" "isRateLimit e1"
    by (auto simp add: rate_limited_def split: sum.splits)
  have "withRetry_loop fn 4 1 0 = withRetry_loop fn 4 2 1"
    using withRetry_loop_retry [of 1 4 fn 0 e0] f by (simp add: eval_nat_numeral)
  also have "\<dots> = withRetry_loop fn 4 3 2"
    using withRetry_loop_retry [of 2 4 fn 1 e1] f by (simp add: eval_nat_numeral)
  also have "\<dots> = (Inr v, 3)"
    using withRetry_loop_success [of 3 4 fn 2 v] a by (simp add: eval_nat_numeral)
  finally show "withRetry fn RETRY_MAX_ATTEMPTS = (Inr v, 3)"
    by (simp add: withRetry_def RETRY_MAX_ATTEMPTS_def)
next
  assume a: "\<forall>k. rate_limited (fn k)"
  have "\<exists>e. fn k = Inl e \<and> isRateLimit e" for k
    using a [rule_format, of k] by (auto simp add: rate_limited_def split: sum.splits)
  then obtain e0 e1 e2 e3 where f:
    "fn 0 = Inl e0" "isRateLimit e0" "fn 1 = Inl e1" "isRateLimit e1"
    "fn 2 = Inl e2" "isRateLimit e2" "fn 3 = Inl e3" "isRateLimit e3"
    by metis
  have "withRetry_loop fn 4 1 0 = withRetry_loop fn 4 2 1"
    using withRetry_loop_retry [of 1 4 fn 0 e0] f by (simp add: eval_nat_numeral)
  also have "\<dots> = withRetry_loop fn 4 3 2"
    using withRetry_loop_retry [of 2 4 fn 1 e1] f by (simp add: eval_nat_numeral)
  also have "\<dots> = withRetry_loop fn 4 4 3"
    using withRetry_loop_retry [of 3 4 fn 2 e2] f by (simp add: eval_nat_numeral)
  also have "\<dots> = (Inl (throwAPIError e3), 4)"
    using withRetry_loop_throw [of 4 4 fn 3 e3] f by (simp add: eval_nat_numeral)
  finally have "withRetry fn RETRY_MAX_ATTEMPTS = (Inl (throwAPIError e3), 4)"
    by (simp add: withRetry_def RETRY_MAX_ATTEMPTS_def)
  with f show "\<exists>e. fn 3 = Inl e \<and> withRetry fn RETRY_MAX_ATTEMPTS = (Inl (throwAPIError e), 4)"
    by blast
next
  assume "fn 0 = Inl err \<and> \<not> isRateLimit err"
  then show "withRetry fn RETRY_MAX_ATTEMPTS = (Inl (throwAPIError err), 1)"
    using withRetry_loop_throw [of 1 4 fn 0 err]
    by (simp add: withRetry_def RETRY_MAX_ATTEMPTS_def)
next
  show "\<forall>k. Suc k < snd (withRetry fn maxAttempts) \<longrightarrow> rate_limited (fn k)"
    using withRetry_loop_calls [of 0 fn maxAttempts 1] by (simp add: withRetry_def)
qed

theorem withRetry_policy_witness:
  "withRetry flaky_twice RETRY_MAX_ATTEMPTS = (Inr ''reply'', 3)
   \<and> withRetry always_limited RETRY_MAX_ATTEMPTS
       = (Inl (Error ''Claude API error (429): rate limited''), 4)
   \<and> withRetry unauthorized RETRY_MAX_ATTEMPTS
       = (Inl (Error ''Invalid Anthropic API key. Check your ANTHROPIC_API_KEY environment variable.''), 1)"
proof -
  have a: "rate_limited (flaky_twice 0) \<and> rate_limited (flaky_twice 1) \<and> flaky_twice 2 = Inr ''reply''"
    by (simp add: flaky_twice_def rate_limited_def isRateLimit_def)
  have b: "\<forall>k. rate_limited (always_limited k)"
    by (simp add: always_limited_def rate_limited_def isRateLimit_def)
  have c: "unauthorized 0 = Inl (APIError (Some 401) ''bad key'')
      \<and> \<not> isRateLimit (APIError (Some 401) ''bad key'')"
    by (simp add: unauthorized_def isRateLimit_def)
  have r1: "withRetry flaky_twice RETRY_MAX_ATTEMPTS = (Inr ''reply'', 3)"
    using withRetry_policy [where fn = flaky_twice and v = "''reply''"] a by blast
  obtain e where e: "always_limited 3 = Inl e"
    and r2: "withRetry always_limited RETRY_MAX_ATTEMPTS = (Inl (throwAPIError e), 4)"
    using withRetry_policy [where fn = always_limited] b by blast
  have r3: "withRetry unauthorized RETRY_MAX_ATTEMPTS
      = (Inl (throwAPIError (APIError (Some 401) ''bad key'')), 1)"
    using withRetry_policy [where fn = unauthorized and err = "APIError (Some 401) ''bad key''"] c
    by blast
  have "throwAPIError (APIError (Some 429) ''rate limited'')
      = Error ''Claude API error (429): rate limited''"
    by code_simp
  moreover have "e = APIError (Some 429) ''rate limited''"
    using e by (simp add: always_limited_def)
  ultimately have "throwAPIError e = Error ''Claude API error (429): rate limited''"
    by simp
  moreover have "throwAPIError (APIError (Some 401) ''bad key'')
      = Error ''Invalid Anthropic API key. Check your ANTHROPIC_API_KEY environment variable.''"
    by (simp add: throwAPIError_def)
  ultimately show ?thesis using r1 r2 r3 by simp
qed

section \<open>Admission control\<close>

lemma window_filter_mono:
  "now' \<le> now \<Longrightarrow> filter (\<lambda>t. now - t < W) (filter (\<lambda>t. now' - t < W) ts)
     = filter (\<lambda>t. now - t < (W::int)) ts"
  by (induction ts) auto

lemma timestamps_of_cleanup:
  "timestamps_of (cleanup W now store) ip = filter (\<lambda>t. now - t < W) (timestamps_of store ip)"
  by (simp add: timestamps_of_def cleanup_def Let_def split: option.splits)

lemma timestamps_of_check:
  "timestamps_of (snd (checkRateLimit W M now ip store)) key =
     (if key = ip
      then (if allowed (fst (checkRateLimit W M now ip store))
            then filter (\<lambda>t. now - t < W) (timestamps_of store ip) @ [now]
            else filter (\<lambda>t. now - t < W) (timestamps_of store ip))
      else timestamps_of store key)"
  by (simp add: checkRateLimit_def Let_def timestamps_of_def)

lemma allowed_check:
  "allowed (fst (checkRateLimit W M now ip store))
     = (int (length (filter (\<lambda>t. now - t < W) (timestamps_of store ip))) < M)"
  by (auto simp add: checkRateLimit_def Let_def)

lemma admitted_in_window_snoc:
  "admitted_in_window W now ip (hist @ [(k, t, a)]) =
     admitted_in_window W now ip hist @ (if k = ip \<and> a \<and> now - t < W then [t] else [])"
  by (simp add: admitted_in_window_def)

lemma window_inv_step:
  assumes inv: "window_inv W T s" and le: "T \<le> event_time e"
  shows "window_inv W (event_time e) (rate_step W M s e)"
proof (cases s)
  case (Pair hist store)
  have old: "filter (\<lambda>t. now - t < W) (timestamps_of store ip) = admitted_in_window W now ip hist"
    if "T \<le> now" for now ip
    using inv that by (simp add: window_inv_def Pair)
  have bound: "t \<le> T" if "t \<in> set (timestamps_of store ip)" for t ip
    using inv that by (auto simp add: window_inv_def Pair)
  show ?thesis
  proof (cases e)
    case (Sweep u)
    have "filter (\<lambda>t. now - t < W) (timestamps_of (cleanup W u store) ip)
        = admitted_in_window W now ip hist" if "u \<le> now" for now ip
      using that le old [of now ip] Sweep
      by (simp add: timestamps_of_cleanup window_filter_mono del: filter_filter)
    moreover have "t \<le> u" if "t \<in> set (timestamps_of (cleanup W u store) ip)" for t ip
      using that bound [of t ip] le Sweep by (auto simp add: timestamps_of_cleanup)
    ultimately show ?thesis
      by (simp add: window_inv_def Pair Sweep)
  next
    case (Check k u)
    obtain res store' where chk: "checkRateLimit W M u k store = (res, store')"
      by (cases "checkRateLimit W M u k store")
    have ts: "timestamps_of store' ip =
        (if ip = k
         then (if allowed res
               then filter (\<lambda>t. u - t < W) (timestamps_of store k) @ [u]
               else filter (\<lambda>t. u - t < W) (timestamps_of store k))
         else timestamps_of store ip)" for ip
      using timestamps_of_check [of W M u k store ip] chk by simp
    have "filter (\<lambda>t. now - t < W) (timestamps_of store' ip)
        = admitted_in_window W now ip (hist @ [(k, u, allowed res)])" if "u \<le> now" for now ip
      using that le old [of now ip] Check
      by (auto simp add: ts admitted_in_window_snoc window_filter_mono simp del: filter_filter)
    moreover have "t \<le> u" if "t \<in> set (timestamps_of store' ip)" for t ip
      using that bound [of t ip] le Check by (auto simp add: ts split: if_splits)
    ultimately show ?thesis
      by (simp add: window_inv_def Pair Check chk)
  qed
qed

lemma window_inv_later: "window_inv W T s \<Longrightarrow> T \<le> T' \<Longrightarrow> window_inv W T' s"
  by (fastforce simp add: window_inv_def)

lemma window_inv_run:
  "sorted (map event_time evs) \<Longrightarrow> \<forall>e \<in> set evs. event_time e \<le> now
   \<Longrightarrow> window_inv W now (rate_run W M evs)"
proof (induction evs arbitrary: now rule: rev_induct)
  case Nil
  show ?case
    by (simp add: rate_run_def window_inv_def timestamps_of_def admitted_in_window_def)
next
  case (snoc e evs)
  have srt: "sorted (map event_time evs)" and le: "\<forall>x \<in> set evs. event_time x \<le> event_time e"
    using snoc.prems(1) by (auto simp add: sorted_append)
  have "window_inv W (event_time e) (rate_step W M (rate_run W M evs) e)"
    using window_inv_step [OF snoc.IH [OF srt le]] by simp
  moreover have "event_time e \<le> now"
    using snoc.prems(2) by simp
  ultimately show ?case
    using window_inv_later by (simp add: rate_run_def)
qed

lemma stored_length_step:
  assumes "\<forall>ip. int (length (timestamps_of (snd s) ip)) \<le> max M 0"
  shows "int (length (timestamps_of (snd (rate_step W M s e)) ip)) \<le> max M 0"
proof (cases s)
  case (Pair hist store)
  have old: "int (length (timestamps_of store key)) \<le> max M 0" for key
    using assms by (simp add: Pair)
  have flt: "int (length (filter P (timestamps_of store key))) \<le> max M 0" for key P
    using old [of key] length_filter_le [of P "timestamps_of store key"] by linarith
  show ?thesis
  proof (cases e)
    case (Sweep u)
    then show ?thesis
      using flt by (simp add: Pair timestamps_of_cleanup)
  next
    case (Check k u)
    obtain res store' where chk: "checkRateLimit W M u k store = (res, store')"
      by (cases "checkRateLimit W M u k store")
    have al: "allowed res = (int (length (filter (\<lambda>t. u - t < W) (timestamps_of store k))) < M)"
      using allowed_check [of W M u k store] chk by simp
    have "timestamps_of store' ip =
        (if ip = k
         then (if allowed res
               then filter (\<lambda>t. u - t < W) (timestamps_of store k) @ [u]
               else filter (\<lambda>t. u - t < W) (timestamps_of store k))
         else timestamps_of store ip)"
      using timestamps_of_check [of W M u k store ip] chk by simp
    then have "int (length (timestamps_of store' ip)) \<le> max M 0"
      using al old [of ip] flt [of "\<lambda>t. u - t < W" k] by (auto split: if_splits)
    then show ?thesis
      by (simp add: Pair Check chk)
  qed
qed

lemma stored_length_run:
  "int (length (timestamps_of (snd (rate_run W M evs)) ip)) \<le> max M 0"
proof (induction evs arbitrary: ip rule: rev_induct)
  case Nil
  show ?case by (simp add: rate_run_def timestamps_of_def)
next
  case (snoc e evs)
  have "\<forall>ip. int (length (timestamps_of (snd (rate_run W M evs)) ip)) \<le> max M 0"
    using snoc.IH by blast
  from stored_length_step [OF this, of W e ip]
  show ?case by (simp add: rate_run_def)
qed

text \<open>
  C8.  Along any history with a non-decreasing clock, a check of a key is allowed exactly
  when fewer than \<open>M\<close> admitted requests of that key lie within the last \<open>W\<close>
  milliseconds.  With a window of 1000 ms and a maximum of 2, three checks of one key
  within 1000 ms give allowed, allowed, denied, and a fourth check once 1000 ms have passed
  since the first gives allowed.  With a positive maximum a denied check carries a retry
  delay, which is positive; an allowed check carries none.
\<close>

theorem sliding_window_admission:
  "(sorted (map event_time evs) \<and> (\<forall>e \<in> set evs. event_time e \<le> now) \<longrightarrow>
      allowed (fst (checkRateLimit W M now ip (snd (rate_run W M evs))))
        = (int (length (admitted_in_window W now ip (fst (rate_run W M evs)))) < M))
   \<and> (t1 \<le> t2 \<and> t2 \<le> t3 \<and> t3 < t1 + 1000 \<and> t3 \<le> t4 \<and> t1 + 1000 \<le> t4 \<longrightarrow>
        map (\<lambda>(k, t, a). a)
          (fst (rate_run 1000 2 [Check ip t1, Check ip t2, Check ip t3, Check ip t4]))
        = [True, True, False, True])
   \<and> (0 < M \<and> \<not> allowed (fst (checkRateLimit W M now ip store)) \<longrightarrow>
        (\<exists>r. retryAfterMs (fst (checkRateLimit W M now ip store)) = RetryMs r \<and> 0 < r))
   \<and> (allowed (fst (checkRateLimit W M now ip store)) \<longrightarrow>
        retryAfterMs (fst (checkRateLimit W M now ip store)) = RetryNull)"
proof (intro conjI impI)
  assume a: "sorted (map event_time evs) \<and> (\<forall>e \<in> set evs. event_time e \<le> now)"
  then have "window_inv W now (rate_run W M evs)"
    using window_inv_run by blast
  then have "filter (\<lambda>t. now - t < W) (timestamps_of (snd (rate_run W M evs)) ip)
      = admitted_in_window W now ip (fst (rate_run W M evs))"
    by (simp add: window_inv_def)
  then show "allowed (fst (checkRateLimit W M now ip (snd (rate_run W M evs))))
        = (int (length (admitted_in_window W now ip (fst (rate_run W M evs)))) < M)"
    by (simp add: allowed_check)
next
  assume "t1 \<le> t2 \<and> t2 \<le> t3 \<and> t3 < t1 + 1000 \<and> t3 \<le> t4 \<and> t1 + 1000 \<le> t4"
  then show "map (\<lambda>(k, t, a). a)
          (fst (rate_run 1000 2 [Check ip t1, Check ip t2, Check ip t3, Check ip t4]))
        = [True, True, False, True]"
    by (simp add: rate_run_def checkRateLimit_def timestamps_of_def Let_def)
next
  assume a: "0 < M \<and> \<not> allowed (fst (checkRateLimit W M now ip store))"
  then have "M \<le> int (length (filter (\<lambda>t. now - t < W) (timestamps_of store ip)))"
    by (simp add: allowed_check)
  with a obtain oldest rest
    where f: "filter (\<lambda>t. now - t < W) (timestamps_of store ip) = oldest # rest"
    by (cases "filter (\<lambda>t. now - t < W) (timestamps_of store ip)") auto
  then have "oldest \<in> set (filter (\<lambda>t. now - t < W) (timestamps_of store ip))"
    by simp
  then have "now - oldest < W" by simp
  moreover have "retryAfterMs (fst (checkRateLimit W M now ip store))
      = RetryMs (W - (now - oldest))"
    using a f by (simp add: checkRateLimit_def Let_def split: if_splits)
  ultimately show "\<exists>r. retryAfterMs (fst (checkRateLimit W M now ip store)) = RetryMs r \<and> 0 < r"
    by simp
next
  assume "allowed (fst (checkRateLimit W M now ip store))"
  then show "retryAfterMs (fst (checkRateLimit W M now ip store)) = RetryNull"
    by (simp add: checkRateLimit_def Let_def split: if_splits)
qed


theorem sliding_window_admission_witness:
  "map (\<lambda>(k, t, a). a)
      (fst (rate_run 1000 2 [Check ''10.0.0.1'' 0, Check ''10.0.0.1'' 400,
                             Check ''10.0.0.1'' 900, Check ''10.0.0.1'' 1000]))
     = [True, True, False, True]
   \<and> admitted_in_window 1000 950 ''10.0.0.1'' (fst (rate_run 1000 2 sample_history)) = [0, 400]
   \<and> \<not> allowed (fst (checkRateLimit 1000 2 950 ''10.0.0.1'' (snd (rate_run 1000 2 sample_history))))
   \<and> (\<exists>r. retryAfterMs (fst (checkRateLimit 1000 2 950 ''10.0.0.1''
                (snd (rate_run 1000 2 sample_history)))) = RetryMs r \<and> 0 < r)"
proof -
  have h: "sorted (map event_time sample_history) \<and> (\<forall>e \<in> set sample_history. event_time e \<le> 950)"
    by (simp add: sample_history_def)
  have t: "(0::int) \<le> 400 \<and> (400::int) \<le> 900 \<and> (900::int) < 0 + 1000 \<and> (900::int) \<le> 1000
      \<and> (0::int) + 1000 \<le> 1000"
    by simp
  have w: "admitted_in_window 1000 950 ''10.0.0.1'' (fst (rate_run 1000 2 sample_history)) = [0, 400]"
    by (simp add: sample_history_def rate_run_def checkRateLimit_def timestamps_of_def
        admitted_in_window_def Let_def)
  from sliding_window_admission [where evs = sample_history and now = 950 and W = 1000 and M = 2
      and ip = "''10.0.0.1''" and ?t1.0 = 0 and ?t2.0 = 400 and ?t3.0 = 900 and ?t4.0 = 1000
      and store = "snd (rate_run 1000 2 sample_history)"] h t w
  show ?thesis by simp
qed

text \<open>
  C10.  A denied check stores the pruned list and appends nothing.  Hence, from the empty
  map and along any history, no key ever stores more than \<open>MAX_REQUESTS\<close> timestamps; a
  denied check leaves every later check of the key (at a later or equal clock reading)
  with the result and the map it would have had without the denied one; and the retry
  delay of a denial is the window length minus the age of the oldest timestamp still
  stored for the key.
\<close>

theorem denied_check_only_prunes:
  "(\<not> allowed (fst (checkRateLimit W M now ip store)) \<longrightarrow>
      snd (checkRateLimit W M now ip store)
        = store(ip \<mapsto> filter (\<lambda>t. now - t < W) (timestamps_of store ip)))
   \<and> int (length (timestamps_of (snd (rate_run W M evs)) ip)) \<le> max M 0
   \<and> (\<not> allowed (fst (checkRateLimit W M now ip store)) \<and> now \<le> now' \<longrightarrow>
        checkRateLimit W M now' ip (snd (checkRateLimit W M now ip store))
          = checkRateLimit W M now' ip store)
   \<and> (\<not> allowed (fst (checkRateLimit W M now ip store))
        \<and> filter (\<lambda>t. now - t < W) (timestamps_of store ip) = oldest # rest \<longrightarrow>
        retryAfterMs (fst (checkRateLimit W M now ip store)) = RetryMs (W - (now - oldest)))"
proof (intro conjI impI)
  assume "\<not> allowed (fst (checkRateLimit W M now ip store))"
  then show "snd (checkRateLimit W M now ip store)
        = store(ip \<mapsto> filter (\<lambda>t. now - t < W) (timestamps_of store ip))"
    by (simp add: checkRateLimit_def Let_def split: if_splits)
next
  show "int (length (timestamps_of (snd (rate_run W M evs)) ip)) \<le> max M 0"
    by (rule stored_length_run)
next
  assume a: "\<not> allowed (fst (checkRateLimit W M now ip store)) \<and> now \<le> now'"
  then have st: "snd (checkRateLimit W M now ip store)
        = store(ip \<mapsto> filter (\<lambda>t. now - t < W) (timestamps_of store ip))"
    by (simp add: checkRateLimit_def Let_def split: if_splits)
  have ts: "timestamps_of (store(ip \<mapsto> xs)) ip = xs" for xs
    by (simp add: timestamps_of_def)
  have "filter (\<lambda>t. now' - t < W) (filter (\<lambda>t. now - t < W) (timestamps_of store ip))
      = filter (\<lambda>t. now' - t < W) (timestamps_of store ip)"
    using a by (simp add: window_filter_mono del: filter_filter)
  then show "checkRateLimit W M now' ip (snd (checkRateLimit W M now ip store))
          = checkRateLimit W M now' ip store"
    unfolding st by (simp add: checkRateLimit_def [of W M now'] ts Let_def del: filter_filter)
next
  assume "\<not> allowed (fst (checkRateLimit W M now ip store))
        \<and> filter (\<lambda>t. now - t < W) (timestamps_of store ip) = oldest # rest"
  then show "retryAfterMs (fst (checkRateLimit W M now ip store)) = RetryMs (W - (now - oldest))"
    by (simp add: checkRateLimit_def Let_def split: if_splits)
qed

theorem denied_check_only_prunes_witness:
  "snd (checkRateLimit 1000 2 950 ''10.0.0.1'' (snd (rate_run 1000 2 sample_history)))
      = (snd (rate_run 1000 2 sample_history))(''10.0.0.1'' \<mapsto> [0, 400])
   \<and> int (length (timestamps_of (snd (rate_run 1000 2 sample_history)) ''10.0.0.1'')) \<le> 2
   \<and> checkRateLimit 1000 2 1000 ''10.0.0.1''
        (snd (checkRateLimit 1000 2 950 ''10.0.0.1'' (snd (rate_run 1000 2 sample_history))))
      = checkRateLimit 1000 2 1000 ''10.0.0.1'' (snd (rate_run 1000 2 sample_history))
   \<and> retryAfterMs (fst (checkRateLimit 1000 2 950 ''10.0.0.1'' (snd (rate_run 1000 2 sample_history))))
      = RetryMs 50"
proof -
  have ts: "timestamps_of (snd (rate_run 1000 2 sample_history)) ''10.0.0.1'' = [0, 400]"
    by (simp add: sample_history_def rate_run_def checkRateLimit_def timestamps_of_def Let_def)
  have d: "\<not> allowed (fst (checkRateLimit 1000 2 950 ''10.0.0.1'' (snd (rate_run 1000 2 sample_history))))"
    by (simp add: allowed_check ts)
  have f: "filter (\<lambda>t. 950 - t < 1000) (timestamps_of (snd (rate_run 1000 2 sample_history)) ''10.0.0.1'')
      = 0 # [400]"
    by (simp add: ts)
  note th = denied_check_only_prunes [where W = 1000 and M = 2 and now = 950 and now' = 1000
      and ip = "''10.0.0.1''" and store = "snd (rate_run 1000 2 sample_history)"
      and evs = sample_history and oldest = 0 and rest = "[400]"]
  have le: "(950::int) \<le> 1000" by simp
  from th d have c1: "snd (checkRateLimit 1000 2 950 ''10.0.0.1'' (snd (rate_run 1000 2 sample_history)))
      = (snd (rate_run 1000 2 sample_history))(''10.0.0.1'' \<mapsto> filter (\<lambda>t. 950 - t < 1000)
           (timestamps_of (snd (rate_run 1000 2 sample_history)) ''10.0.0.1''))"
    by blast
  from th have c2: "int (length (timestamps_of (snd (rate_run 1000 2 sample_history)) ''10.0.0.1''))
      \<le> max 2 0"
    by blast
  from th d le have c3: "checkRateLimit 1000 2 1000 ''10.0.0.1''
        (snd (checkRateLimit 1000 2 950 ''10.0.0.1'' (snd (rate_run 1000 2 sample_history))))
      = checkRateLimit 1000 2 1000 ''10.0.0.1'' (snd (rate_run 1000 2 sample_history))"
    by blast
  from th d f have c4: "retryAfterMs (fst (checkRateLimit 1000 2 950 ''10.0.0.1''
        (snd (rate_run 1000 2 sample_history)))) = RetryMs (1000 - (950 - 0))"
    by blast
  show ?thesis
  proof (intro conjI)
    show "snd (checkRateLimit 1000 2 950 ''10.0.0.1'' (snd (rate_run 1000 2 sample_history)))
        = (snd (rate_run 1000 2 sample_history))(''10.0.0.1'' \<mapsto> [0, 400])"
      using c1 by (simp add: ts)
    show "int (length (timestamps_of (snd (rate_run 1000 2 sample_history)) ''10.0.0.1'')) \<le> 2"
      using c2 by simp
    show "checkRateLimit 1000 2 1000 ''10.0.0.1''
        (snd (checkRateLimit 1000 2 950 ''10.0.0.1'' (snd (rate_run 1000 2 sample_history))))
      = checkRateLimit 1000 2 1000 ''10.0.0.1'' (snd (rate_run 1000 2 sample_history))"
      by (rule c3)
    show "retryAfterMs (fst (checkRateLimit 1000 2 950 ''10.0.0.1''
        (snd (rate_run 1000 2 sample_history)))) = RetryMs 50"
      using c4 by simp
  qed
qed

section \<open>Batches\<close>

lemma start_worker_funpow:
  "j \<le> n \<Longrightarrow> (start_worker n ^^ j)
      \<lparr>results = rs, nextIndex = 0, workers = [], rejected = (None :: 'e option)\<rparr>
     = \<lparr>results = rs, nextIndex = j, workers = map Awaiting [0..<j], rejected = None\<rparr>"
  by (induction j) (simp_all add: start_worker_def worker_loop_def)

lemma batch_start_eq:
  "batch_start n concurrency =
     \<lparr>results = replicate n None, nextIndex = nat (min concurrency (int n)),
      workers = map Awaiting [0..<nat (min concurrency (int n))], rejected = None\<rparr>"
  unfolding batch_start_def by (rule start_worker_funpow) simp

lemma batch_inv_start: "batch_inv fn items (batch_start (length items) concurrency)"
  by (auto simp add: batch_inv_def batch_start_eq)

lemma set_update_cases:
  "x \<in> set (xs[w := y]) \<Longrightarrow> x = y \<or> x \<in> set xs"
  by (meson insertE set_update_subset_insert subsetD)

lemma set_update_keep:
  assumes "x \<in> set xs" "w < length xs" "xs ! w \<noteq> x"
  shows "x \<in> set (xs[w := y])"
proof -
  from assms(1) obtain j where j: "j < length xs" "xs ! j = x"
    by (auto simp add: in_set_conv_nth)
  with assms(3) have "j \<noteq> w" by auto
  with j have "xs[w := y] ! j = x" "j < length (xs[w := y])" by simp_all
  then show ?thesis by (metis nth_mem)
qed

lemma batch_inv_settle:
  assumes inv: "batch_inv fn items s"
  shows "batch_inv fn items (settle fn items s w)"
proof (cases "w < length (workers s)")
  case False
  then show ?thesis using inv by (simp add: settle_def)
next
  case w: True
  show ?thesis
  proof (cases "workers s ! w")
    case Finished
    then show ?thesis using inv w by (simp add: settle_def)
  next
    case (Thrown e)
    then show ?thesis using inv w by (simp add: settle_def)
  next
    case (Awaiting index)
    have mem: "Awaiting index \<in> set (workers s)"
      using w Awaiting by (metis nth_mem)
    then have idx: "index < nextIndex s" "index < length items" "index < length (results s)"
      using inv by (auto simp add: batch_inv_def)
    show ?thesis
    proof (cases "fn (items ! index)")
      case (Inl e)
      then have st: "settle fn items s w = s\<lparr>workers := (workers s)[w := Thrown e],
          rejected := (case rejected s of None \<Rightarrow> Some e | Some e' \<Rightarrow> Some e')\<rparr>"
        using w Awaiting by (simp add: settle_def)
      have "i < nextIndex s" if "Awaiting i \<in> set ((workers s)[w := Thrown e])" for i
        using set_update_cases [OF that] inv by (auto simp add: batch_inv_def)
      then show ?thesis
        unfolding st using inv by (auto simp add: batch_inv_def split: option.splits)
    next
      case (Inr r)
      show ?thesis
      proof (cases "nextIndex s < length items")
        case room: True
        then have st: "settle fn items s w = s\<lparr>results := (results s)[index := Some r],
            workers := (workers s)[w := Awaiting (nextIndex s)], nextIndex := nextIndex s + 1\<rparr>"
          using w Awaiting Inr by (simp add: settle_def worker_loop_def)
        have a: "i < nextIndex s + 1"
          if "Awaiting i \<in> set ((workers s)[w := Awaiting (nextIndex s)])" for i
          using set_update_cases [OF that] inv by (auto simp add: batch_inv_def)
        have b: "fn (items ! i) = Inr r'"
          if "i < length items" "(results s)[index := Some r] ! i = Some r'" for i r'
          using that inv Inr idx by (cases "i = index") (auto simp add: batch_inv_def)
        have c: "Thrown e \<notin> set ((workers s)[w := Awaiting (nextIndex s)])"
          if "rejected s = None" for e
          using set_update_cases [of "Thrown e" "workers s" w "Awaiting (nextIndex s)"] inv that
          by (auto simp add: batch_inv_def)
        have d: "(results s)[index := Some r] ! i \<noteq> None
            \<or> Awaiting i \<in> set ((workers s)[w := Awaiting (nextIndex s)])"
          if rj: "rejected s = None" and i: "i < nextIndex s + 1" for i
        proof (cases "i = nextIndex s")
          case True
          then show ?thesis using w by (simp add: set_update_memI)
        next
          case False
          with i have il: "i < nextIndex s" by simp
          show ?thesis
          proof (cases "i = index")
            case True
            then show ?thesis using idx by simp
          next
            case ne: False
            from inv rj il have "results s ! i \<noteq> None \<or> Awaiting i \<in> set (workers s)"
              by (simp add: batch_inv_def)
            then show ?thesis
            proof
              assume "results s ! i \<noteq> None"
              then show ?thesis using ne by simp
            next
              assume "Awaiting i \<in> set (workers s)"
              then have "Awaiting i \<in> set ((workers s)[w := Awaiting (nextIndex s)])"
                using w Awaiting ne by (intro set_update_keep) auto
              then show ?thesis by simp
            qed
          qed
        qed
        have e: "Finished \<notin> set ((workers s)[w := Awaiting (nextIndex s)])"
          if rj: "rejected s = None"
          using set_update_cases [of Finished "workers s" w "Awaiting (nextIndex s)"] inv rj room
          by (auto simp add: batch_inv_def)
        show ?thesis
          unfolding st using inv room a b c d e by (simp add: batch_inv_def)
      next
        case full: False
        then have st: "settle fn items s w = s\<lparr>results := (results s)[index := Some r],
            workers := (workers s)[w := Finished]\<rparr>"
          using w Awaiting Inr by (simp add: settle_def worker_loop_def)
        have nx: "nextIndex s = length items"
          using full inv by (simp add: batch_inv_def)
        have a: "i < nextIndex s" if "Awaiting i \<in> set ((workers s)[w := Finished])" for i
          using set_update_cases [OF that] inv by (auto simp add: batch_inv_def)
        have b: "fn (items ! i) = Inr r'"
          if "i < length items" "(results s)[index := Some r] ! i = Some r'" for i r'
          using that inv Inr idx by (cases "i = index") (auto simp add: batch_inv_def)
        have c: "Thrown e \<notin> set ((workers s)[w := Finished])" if "rejected s = None" for e
          using set_update_cases [of "Thrown e" "workers s" w Finished] inv that
          by (auto simp add: batch_inv_def)
        have d: "(results s)[index := Some r] ! i \<noteq> None
            \<or> Awaiting i \<in> set ((workers s)[w := Finished])"
          if rj: "rejected s = None" and il: "i < nextIndex s" for i
        proof (cases "i = index")
          case True
          then show ?thesis using idx by simp
        next
          case ne: False
          from inv rj il have "results s ! i \<noteq> None \<or> Awaiting i \<in> set (workers s)"
            by (simp add: batch_inv_def)
          then show ?thesis
          proof
            assume "results s ! i \<noteq> None"
            then show ?thesis using ne by simp
          next
            assume "Awaiting i \<in> set (workers s)"
            then have "Awaiting i \<in> set ((workers s)[w := Finished])"
              using w Awaiting ne by (intro set_update_keep) auto
            then show ?thesis by simp
          qed
        qed
        show ?thesis
          unfolding st using inv nx a b c d by (simp add: batch_inv_def)
      qed
    qed
  qed
qed

lemma batch_inv_foldl:
  "batch_inv fn items s \<Longrightarrow> batch_inv fn items (foldl (settle fn items) s order)"
  by (induction order arbitrary: s) (simp_all add: batch_inv_settle)

lemma batch_inv_run: "batch_inv fn items (batch_run fn items concurrency order)"
  by (simp add: batch_run_def batch_inv_foldl batch_inv_start)


lemma batch_returned:
  assumes inv: "batch_inv fn items s" and out: "batch_outcome s = Some (Inr rs)"
    and nonempty: "workers s \<noteq> []"
  shows "length rs = length items \<and> (\<forall>i < length items. \<exists>r. fn (items ! i) = Inr r \<and> rs ! i = Some r)"
proof -
  from out have rj: "rejected s = None" and fin: "\<forall>w \<in> set (workers s). w = Finished"
    and rs: "rs = results s"
    by (auto simp add: batch_outcome_def list_all_iff split: option.splits if_splits)
  from nonempty fin have "Finished \<in> set (workers s)"
    by (cases "workers s") auto
  with inv rj have nx: "nextIndex s = length items"
    by (simp add: batch_inv_def)
  have "\<exists>r. fn (items ! i) = Inr r \<and> rs ! i = Some r" if i: "i < length items" for i
  proof -
    from inv rj i nx have "results s ! i \<noteq> None \<or> Awaiting i \<in> set (workers s)"
      by (simp add: batch_inv_def)
    with fin obtain r where r: "results s ! i = Some r" by auto
    with inv i have "fn (items ! i) = Inr r" by (simp add: batch_inv_def)
    with r rs show ?thesis by simp
  qed
  moreover have "length rs = length items"
    using inv rs by (simp add: batch_inv_def)
  ultimately show ?thesis by simp
qed

lemma settle_workers_length: "length (workers (settle fn items s w)) = length (workers s)"
  by (simp add: settle_def worker_loop_def split: worker.splits sum.splits)

lemma foldl_settle_workers_length:
  "length (workers (foldl (settle fn items) s order)) = length (workers s)"
  by (induction order arbitrary: s) (simp_all add: settle_workers_length)

lemma batch_workers_nonempty:
  assumes "0 < concurrency" "items \<noteq> []"
  shows "workers (batch_run fn items concurrency order) \<noteq> []"
proof -
  have "length (workers (batch_run fn items concurrency order))
      = nat (min concurrency (int (length items)))"
    by (simp add: batch_run_def batch_start_eq foldl_settle_workers_length)
  moreover have "0 < nat (min concurrency (int (length items)))"
    using assms by (cases items) auto
  ultimately have "0 < length (workers (batch_run fn items concurrency order))"
    by (simp only:)
  then show ?thesis by blast
qed

lemma filter_update_length:
  "w < length xs \<Longrightarrow> P (xs ! w)
   \<Longrightarrow> length (filter P (xs[w := y])) + 1 = length (filter P xs) + (if P y then 1 else 0)"
proof (induction xs arbitrary: w)
  case Nil
  then show ?case by simp
next
  case (Cons x xs)
  then show ?case by (cases w) auto
qed

lemma batch_progress:
  assumes "batch_inv fn items s"
  shows "\<exists>order. batch_outcome (foldl (settle fn items) s order) \<noteq> None"
  using assms
proof (induction "batch_left (length items) s" arbitrary: s rule: less_induct)
  case less
  show ?case
  proof (cases "batch_outcome s = None")
    case False
    then have "batch_outcome (foldl (settle fn items) s []) \<noteq> None" by simp
    then show ?thesis by blast
  next
    case True
    then have rj: "rejected s = None" and "\<not> list_all (\<lambda>w. w = Finished) (workers s)"
      by (auto simp add: batch_outcome_def split: option.splits if_splits)
    then obtain w where w: "w < length (workers s)" "workers s ! w \<noteq> Finished"
      by (auto simp add: list_all_length)
    from less.prems rj have "\<forall>e. Thrown e \<notin> set (workers s)"
      by (simp add: batch_inv_def)
    with w obtain index where aw: "workers s ! w = Awaiting index"
      by (cases "workers s ! w") (auto simp add: in_set_conv_nth)
    show ?thesis
    proof (cases "fn (items ! index)")
      case (Inl e)
      then have "rejected (settle fn items s w) = Some e"
        using w aw rj by (simp add: settle_def)
      then have "batch_outcome (foldl (settle fn items) s [w]) \<noteq> None"
        by (simp add: batch_outcome_def)
      then show ?thesis by blast
    next
      case (Inr r)
      have cnt: "length (filter (\<lambda>x. x \<noteq> Finished) ((workers s)[w := y])) + 1
          = length (filter (\<lambda>x. x \<noteq> Finished) (workers s)) + (if y \<noteq> Finished then 1 else 0)"
        for y
        using w by (rule filter_update_length)
      have "batch_left (length items) (settle fn items s w) < batch_left (length items) s"
      proof (cases "nextIndex s < length items")
        case True
        then have "settle fn items s w = s\<lparr>results := (results s)[index := Some r],
            workers := (workers s)[w := Awaiting (nextIndex s)], nextIndex := nextIndex s + 1\<rparr>"
          using w aw Inr by (simp add: settle_def worker_loop_def)
        then show ?thesis
          using True cnt [of "Awaiting (nextIndex s)"] by (simp add: batch_left_def)
      next
        case False
        then have "settle fn items s w = s\<lparr>results := (results s)[index := Some r],
            workers := (workers s)[w := Finished]\<rparr>"
          using w aw Inr by (simp add: settle_def worker_loop_def)
        then show ?thesis
          using False cnt [of Finished] by (simp add: batch_left_def)
      qed
      from less.hyps [OF this batch_inv_settle [OF less.prems]]
      obtain order where "batch_outcome (foldl (settle fn items) (settle fn items s w) order) \<noteq> None"
        by blast
      then have "batch_outcome (foldl (settle fn items) s (w # order)) \<noteq> None" by simp
      then show ?thesis by blast
    qed
  qed
qed


lemma settle_rejected:
  assumes "batch_inv fn items s"
    and "rejected s = Some e \<longrightarrow> (\<exists>i < length items. fn (items ! i) = Inl e)"
    and "rejected (settle fn items s w) = Some e"
  shows "\<exists>i < length items. fn (items ! i) = Inl e"
proof (cases "rejected s")
  case (Some e')
  then have "rejected (settle fn items s w) = Some e'"
    by (simp add: settle_def worker_loop_def split: worker.splits sum.splits)
  with assms Some show ?thesis by simp
next
  case None
  with assms(3) obtain index where w: "w < length (workers s)" "workers s ! w = Awaiting index"
    and f: "fn (items ! index) = Inl e"
    by (auto simp add: settle_def worker_loop_def split: worker.splits sum.splits if_splits)
  from w have "Awaiting index \<in> set (workers s)" by (metis nth_mem)
  with assms(1) have "index < length items" by (auto simp add: batch_inv_def)
  with f show ?thesis by blast
qed

lemma foldl_settle_rejected:
  "batch_inv fn items s \<Longrightarrow> rejected s = None
   \<Longrightarrow> rejected (foldl (settle fn items) s order) = Some e
   \<Longrightarrow> \<exists>i < length items. fn (items ! i) = Inl e"
proof (induction order arbitrary: e rule: rev_induct)
  case Nil
  then show ?case by simp
next
  case (snoc w order)
  have inv: "batch_inv fn items (foldl (settle fn items) s order)"
    using snoc.prems(1) by (rule batch_inv_foldl)
  have "rejected (foldl (settle fn items) s order) = Some e
      \<longrightarrow> (\<exists>i < length items. fn (items ! i) = Inl e)"
    using snoc.IH [OF snoc.prems(1,2)] by blast
  from settle_rejected [OF inv this] snoc.prems(3) show ?case by simp
qed

lemma batch_run_rejected:
  assumes "processBatch items fn concurrency order = Some (Inl e)"
  shows "\<exists>y \<in> set items. fn y = Inl e"
proof -
  from assms have "rejected (batch_run fn items concurrency order) = Some e"
    by (auto simp add: processBatch_def batch_outcome_def split: option.splits if_splits)
  then have "\<exists>i < length items. fn (items ! i) = Inl e"
    unfolding batch_run_def
    by (intro foldl_settle_rejected [OF batch_inv_start]) (simp_all add: batch_start_eq)
  then show ?thesis by (metis nth_mem)
qed

lemma batch_run_returned:
  assumes "0 < concurrency" and "processBatch items fn concurrency order = Some (Inr rs)"
  shows "length rs = length items
       \<and> (\<forall>i < length items. \<exists>r. fn (items ! i) = Inr r \<and> rs ! i = Some r)"
proof (cases "items = []")
  case True
  have "length (results (batch_run fn items concurrency order)) = length items"
    using batch_inv_run [of fn items concurrency order] by (simp add: batch_inv_def)
  with assms(2) True show ?thesis
    by (auto simp add: processBatch_def batch_outcome_def split: option.splits if_splits)
next
  case False
  from batch_returned [OF batch_inv_run _ batch_workers_nonempty [OF assms(1) False]] assms(2)
  show ?thesis by (simp add: processBatch_def)
qed

lemma batch_run_settles:
  "\<exists>rest. processBatch items fn concurrency (order @ rest) \<noteq> None"
  using batch_progress [OF batch_inv_run [of fn items concurrency order]]
  by (simp add: processBatch_def batch_run_def)

lemma batch_run_complete:
  assumes ok: "\<forall>x \<in> set items. \<exists>r. fn x = Inr r"
    and idle: "\<forall>w \<in> set (workers (batch_run fn items concurrency order)). \<forall>i. w \<noteq> Awaiting i"
  shows "processBatch items fn concurrency order \<noteq> None"
proof (cases "rejected (batch_run fn items concurrency order)")
  case (Some e)
  then show ?thesis by (simp add: processBatch_def batch_outcome_def)
next
  case None
  with batch_inv_run [of fn items concurrency order]
  have "\<forall>e. Thrown e \<notin> set (workers (batch_run fn items concurrency order))"
    by (simp add: batch_inv_def)
  with idle have "\<forall>w \<in> set (workers (batch_run fn items concurrency order)). w = Finished"
    by (metis worker.exhaust)
  with None show ?thesis
    by (simp add: processBatch_def batch_outcome_def list_all_iff)
qed

text \<open>
  C4.  With a positive worker bound, whatever the completion order: when \<open>processBatch\<close>
  returns, the array has the length of the input and its i-th slot holds what \<open>fn\<close>
  returned for the i-th item.  When \<open>fn\<close> throws for no item, \<open>processBatch\<close> returns
  the results in input order as soon as no worker is left awaiting a call, and every
  completion order can be continued to that point.
\<close>

theorem processBatch_preserves_order:
  assumes "0 < concurrency"
  shows "(processBatch items fn concurrency order = Some (Inr rs) \<longrightarrow>
            length rs = length items
          \<and> (\<forall>i < length items. \<exists>r. fn (items ! i) = Inr r \<and> rs ! i = Some r))
       \<and> ((\<forall>x \<in> set items. \<exists>r. fn x = Inr r)
            \<and> (\<forall>w \<in> set (workers (batch_run fn items concurrency order)). \<forall>i. w \<noteq> Awaiting i) \<longrightarrow>
            processBatch items fn concurrency order
              = Some (Inr (map (\<lambda>x. case fn x of Inr r \<Rightarrow> Some r | Inl e \<Rightarrow> None) items)))
       \<and> ((\<forall>x \<in> set items. \<exists>r. fn x = Inr r) \<longrightarrow>
            (\<exists>rest. processBatch items fn concurrency (order @ rest)
               = Some (Inr (map (\<lambda>x. case fn x of Inr r \<Rightarrow> Some r | Inl e \<Rightarrow> None) items))))"
proof -
  have returned: "out = Inr (map (\<lambda>x. case fn x of Inr r \<Rightarrow> Some r | Inl e \<Rightarrow> None) items)"
    if ok: "\<forall>x \<in> set items. \<exists>r. fn x = Inr r"
      and out: "processBatch items fn concurrency ord = Some out" for ord out
  proof (cases out)
    case (Inl e)
    with out ok batch_run_rejected [of items fn concurrency ord e]
    show ?thesis by auto
  next
    case (Inr rs')
    with out assms have len: "length rs' = length items"
      and el: "\<And>i. i < length items \<Longrightarrow> \<exists>r. fn (items ! i) = Inr r \<and> rs' ! i = Some r"
      using batch_run_returned [of concurrency items fn ord rs'] by auto
    have "rs' = map (\<lambda>x. case fn x of Inr r \<Rightarrow> Some r | Inl e \<Rightarrow> None) items"
    proof (rule nth_equalityI)
      show "length rs' = length (map (\<lambda>x. case fn x of Inr r \<Rightarrow> Some r | Inl e \<Rightarrow> None) items)"
        using len by simp
    next
      fix i assume "i < length rs'"
      with len el [of i]
      show "rs' ! i = map (\<lambda>x. case fn x of Inr r \<Rightarrow> Some r | Inl e \<Rightarrow> None) items ! i"
        by auto
    qed
    with Inr show ?thesis by simp
  qed
  have first: "processBatch items fn concurrency order = Some (Inr rs) \<longrightarrow>
            length rs = length items
          \<and> (\<forall>i < length items. \<exists>r. fn (items ! i) = Inr r \<and> rs ! i = Some r)"
    using batch_run_returned [OF assms] by blast
  have second: "(\<forall>x \<in> set items. \<exists>r. fn x = Inr r)
            \<and> (\<forall>w \<in> set (workers (batch_run fn items concurrency order)). \<forall>i. w \<noteq> Awaiting i) \<longrightarrow>
            processBatch items fn concurrency order
              = Some (Inr (map (\<lambda>x. case fn x of Inr r \<Rightarrow> Some r | Inl e \<Rightarrow> None) items))"
  proof
    assume a: "(\<forall>x \<in> set items. \<exists>r. fn x = Inr r)
        \<and> (\<forall>w \<in> set (workers (batch_run fn items concurrency order)). \<forall>i. w \<noteq> Awaiting i)"
    then have "processBatch items fn concurrency order \<noteq> None"
      using batch_run_complete [of items fn concurrency order] by blast
    then obtain out where out: "processBatch items fn concurrency order = Some out"
      by blast
    with returned [of order out] a show "processBatch items fn concurrency order
        = Some (Inr (map (\<lambda>x. case fn x of Inr r \<Rightarrow> Some r | Inl e \<Rightarrow> None) items))"
      by simp
  qed
  have third: "(\<forall>x \<in> set items. \<exists>r. fn x = Inr r) \<longrightarrow>
            (\<exists>rest. processBatch items fn concurrency (order @ rest)
               = Some (Inr (map (\<lambda>x. case fn x of Inr r \<Rightarrow> Some r | Inl e \<Rightarrow> None) items)))"
  proof
    assume ok: "\<forall>x \<in> set items. \<exists>r. fn x = Inr r"
    obtain rest where "processBatch items fn concurrency (order @ rest) \<noteq> None"
      using batch_run_settles by blast
    then obtain out where out: "processBatch items fn concurrency (order @ rest) = Some out"
      by blast
    with returned [of "order @ rest" out] ok
    show "\<exists>rest. processBatch items fn concurrency (order @ rest)
        = Some (Inr (map (\<lambda>x. case fn x of Inr r \<Rightarrow> Some r | Inl e \<Rightarrow> None) items))"
      by blast
  qed
  from first second third show ?thesis by blast
qed

theorem processBatch_preserves_order_witness:
  "processBatch [1, 2, 3, 4, 5] sample_fn 2 [1, 0, 0, 1, 0]
     = Some (Inr [Some 10, Some 20, Some 30, Some 40, Some 50])
   \<and> length [Some 10, Some 20, Some 30, Some 40, Some (50::nat)] = length [1, 2, 3, 4, 5::nat]
   \<and> (\<exists>rest. processBatch [1, 2, 3, 4, 5] sample_fn 2 ([0, 1] @ rest)
         = Some (Inr [Some 10, Some 20, Some 30, Some 40, Some 50]))"
proof -
  have pos: "(0::int) < 2" by simp
  have run: "processBatch [1, 2, 3, 4, 5] sample_fn 2 [1, 0, 0, 1, 0]
      = Some (Inr [Some 10, Some 20, Some 30, Some 40, Some 50])"
    by (simp add: processBatch_def batch_run_def batch_start_eq settle_def worker_loop_def
        batch_outcome_def sample_fn_def upt_rec)
  have ok: "\<forall>x \<in> set [1, 2, 3, 4, 5]. \<exists>r. sample_fn x = Inr r"
    by (simp add: sample_fn_def)
  have idle: "\<forall>w \<in> set (workers (batch_run sample_fn [1, 2, 3, 4, 5] 2 [1, 0, 0, 1, 0])).
      \<forall>i. w \<noteq> Awaiting i"
    by (simp add: batch_run_def batch_start_eq settle_def worker_loop_def sample_fn_def upt_rec)
  note th = processBatch_preserves_order [OF pos, where items = "[1, 2, 3, 4, 5]" and fn = sample_fn]
  from th [of "[1, 0, 0, 1, 0]" "[]"] ok idle
  have "processBatch [1, 2, 3, 4, 5] sample_fn 2 [1, 0, 0, 1, 0]
      = Some (Inr (map (\<lambda>x. case sample_fn x of Inr r \<Rightarrow> Some r | Inl e \<Rightarrow> None) [1, 2, 3, 4, 5]))"
    by blast
  from th [of "[1, 0, 0, 1, 0]" "[Some 10, Some 20, Some 30, Some 40, Some 50]"] run
  have "length [Some 10, Some 20, Some 30, Some 40, Some (50::nat)] = length [1, 2, 3, 4, 5::nat]"
    by blast
  moreover from th [of "[0, 1]" "[]"] ok
  have "\<exists>rest. processBatch [1, 2, 3, 4, 5] sample_fn 2 ([0, 1] @ rest)
      = Some (Inr (map (\<lambda>x. case sample_fn x of Inr r \<Rightarrow> Some r | Inl e \<Rightarrow> None) [1, 2, 3, 4, 5]))"
    by blast
  then have "\<exists>rest. processBatch [1, 2, 3, 4, 5] sample_fn 2 ([0, 1] @ rest)
         = Some (Inr [Some 10, Some 20, Some 30, Some 40, Some 50])"
    by (simp add: sample_fn_def)
  ultimately show ?thesis using run by blast
qed

text \<open>With a worker bound of zero no worker is started and the array is returned unfilled.\<close>

lemma processBatch_no_workers:
  "concurrency \<le> 0 \<Longrightarrow> processBatch items fn concurrency [] = Some (Inr (replicate (length items) None))"
  by (simp add: processBatch_def batch_run_def batch_start_eq batch_outcome_def)




section \<open>Pools\<close>

text \<open>
  What holds of the pool.  Started on an empty pool, the first \<open>concurrency\<close> callers hold
  a slot at once and the next one waits; a waiting caller stays waiting as long as no
  holder settles; a settling holder wakes the head of the queue, and a caller that has to
  wait joins the queue at its end.
\<close>

lemma semaphore_waits_until_release:
  "tasks s t = Waiting \<Longrightarrow> \<forall>ev \<in> set evs. \<not> is_Settle ev
   \<Longrightarrow> tasks (foldl (sem_step concurrency) s evs) t = Waiting"
proof (induction evs arbitrary: s)
  case Nil
  then show ?case by simp
next
  case (Cons ev evs)
  have "tasks (sem_step concurrency s ev) t = Waiting"
    using Cons.prems by (cases ev) auto
  with Cons show ?case by simp
qed

lemma semaphore_release_wakes_head:
  "tasks s t = Holding \<Longrightarrow> queue s = h # rest \<Longrightarrow> h \<noteq> t
   \<Longrightarrow> tasks (sem_step concurrency s (Settle t)) h = Woken
       \<and> queue (sem_step concurrency s (Settle t)) = rest"
  by simp

lemma semaphore_full_call_enqueues:
  "tasks s t = NotStarted \<Longrightarrow> concurrency \<le> running s
   \<Longrightarrow> queue (sem_step concurrency s (Call t)) = queue s @ [t]
       \<and> tasks (sem_step concurrency s (Call t)) t = Waiting"
  by simp

lemma vision_pool_second_caller_waits:
  "running (sem_run VISION_CONCURRENCY [Call 0, Call 1]) = 1
   \<and> tasks (sem_run VISION_CONCURRENCY [Call 0, Call 1]) 0 = Holding
   \<and> tasks (sem_run VISION_CONCURRENCY [Call 0, Call 1]) 1 = Waiting"
  by (simp add: sem_run_def new_Semaphore_def VISION_CONCURRENCY_def)

lemma text_pool_fourth_caller_waits:
  "running (sem_run TEXT_CONCURRENCY [Call 0, Call 1, Call 2, Call 3]) = 3
   \<and> tasks (sem_run TEXT_CONCURRENCY [Call 0, Call 1, Call 2, Call 3]) 3 = Waiting
   \<and> queue (sem_run TEXT_CONCURRENCY [Call 0, Call 1, Call 2, Call 3]) = [3]"
  by (simp add: sem_run_def new_Semaphore_def TEXT_CONCURRENCY_def)

text \<open>
  C5.  The bound itself fails.  In the pool of capacity 1: caller 0 holds the slot, caller
  1 waits; caller 0 settles, which decrements \<open>running\<close> to 0 and resolves caller 1;
  before caller 1 has resumed, caller 2 calls \<open>run\<close>, finds \<open>running\<close> below the
  capacity and takes the slot; caller 1 then resumes and increments \<open>running\<close> without
  testing again.  Callers 1 and 2 now both hold, and \<open>running\<close> is 2.  The same happens
  in the pool of capacity 3.
\<close>

theorem semaphore_capacity_exceeded:
  "running (sem_run VISION_CONCURRENCY [Call 0, Call 1, Settle 0, Call 2, Resume 1]) = 2
   \<and> tasks (sem_run VISION_CONCURRENCY [Call 0, Call 1, Settle 0, Call 2, Resume 1]) 1 = Holding
   \<and> tasks (sem_run VISION_CONCURRENCY [Call 0, Call 1, Settle 0, Call 2, Resume 1]) 2 = Holding
   \<and> VISION_CONCURRENCY < running (sem_run VISION_CONCURRENCY [Call 0, Call 1, Settle 0, Call 2, Resume 1])
   \<and> TEXT_CONCURRENCY < running (sem_run TEXT_CONCURRENCY
        [Call 0, Call 1, Call 2, Call 3, Settle 0, Call 4, Resume 3])"
  by (simp add: sem_run_def new_Semaphore_def VISION_CONCURRENCY_def TEXT_CONCURRENCY_def)

section \<open>Replies\<close>

lemma match_braces_embedded:
  assumes "CHR ''{'' \<notin> set pre" and "CHR ''}'' \<notin> set post"
  shows "match_braces (pre @ [CHR ''{''] @ body @ [CHR ''}''] @ post)
       = Some ([CHR ''{''] @ body @ [CHR ''}''])"
proof -
  have a: "dropWhile (\<lambda>c. c \<noteq> CHR ''{'') (pre @ [CHR ''{''] @ body @ [CHR ''}''] @ post)
      = [CHR ''{''] @ body @ [CHR ''}''] @ post"
    using assms(1) by (auto simp add: dropWhile_append3)
  have b: "dropWhile (\<lambda>c. c \<noteq> CHR ''}'') (rev ([CHR ''{''] @ body @ [CHR ''}''] @ post))
      = CHR ''}'' # rev body @ [CHR ''{'']"
    using assms(2) by (auto simp add: dropWhile_append3)
  show ?thesis
    unfolding match_braces_def a Let_def b by simp
qed

lemma parseResponse_text:
  "parseResponse json_parse (TextBlock text # rest) =
     (case json_parse text of
        Some parsed \<Rightarrow> Inr parsed
      | None \<Rightarrow>
          (case match_braces text of
             Some jsonMatch \<Rightarrow>
               (case json_parse jsonMatch of Some parsed \<Rightarrow> Inr parsed | None \<Rightarrow> Inl parse_failure)
           | None \<Rightarrow> Inl parse_failure))"
  by (simp add: parseResponse_def)

lemma parseResponse_error:
  "parseResponse json_parse content = Inl e \<Longrightarrow> \<exists>m. e = Error m"
  by (auto simp add: parseResponse_def parse_failure_def
      split: option.splits content_block.splits)

text \<open>
  C6, as the code has it, for any \<open>JSON.parse\<close>.  A reply that parses as a whole is
  returned as parsed.  Otherwise the substring from the first opening brace to the last
  closing brace is parsed, and a failure of either step is the parse failure.  So a reply
  that does not parse as a whole and embeds an object in a lead without opening brace and
  a trail without closing brace parses as the object alone does.  A parse failure inside
  \<open>withRetry\<close> ends it after that one call.
\<close>

theorem parseResponse_greedy_match:
  "(json_parse reply = Some v \<longrightarrow> parseResponse json_parse (TextBlock reply # rest) = Inr v)
   \<and> (json_parse reply = None \<longrightarrow>
        parseResponse json_parse (TextBlock reply # rest)
          = (case match_braces reply of
               None \<Rightarrow> Inl parse_failure
             | Some m \<Rightarrow> (case json_parse m of None \<Rightarrow> Inl parse_failure | Some w \<Rightarrow> Inr w)))
   \<and> (CHR ''{'' \<notin> set pre \<and> CHR ''}'' \<notin> set post \<longrightarrow>
        match_braces (pre @ [CHR ''{''] @ body @ [CHR ''}''] @ post)
          = Some ([CHR ''{''] @ body @ [CHR ''}'']))
   \<and> (CHR ''{'' \<notin> set pre \<and> CHR ''}'' \<notin> set post
        \<and> json_parse (pre @ [CHR ''{''] @ body @ [CHR ''}''] @ post) = None \<longrightarrow>
        parseResponse json_parse [TextBlock (pre @ [CHR ''{''] @ body @ [CHR ''}''] @ post)]
          = parseResponse json_parse [TextBlock ([CHR ''{''] @ body @ [CHR ''}''])])
   \<and> (service 0 = Inr content \<and> parseResponse json_parse content = Inl e \<longrightarrow>
        withRetry (create_then_parse json_parse service) RETRY_MAX_ATTEMPTS = (Inl e, 1))"
proof (intro conjI impI)
  assume "json_parse reply = Some v"
  then show "parseResponse json_parse (TextBlock reply # rest) = Inr v"
    by (simp add: parseResponse_text)
next
  assume "json_parse reply = None"
  then show "parseResponse json_parse (TextBlock reply # rest)
      = (case match_braces reply of
           None \<Rightarrow> Inl parse_failure
         | Some m \<Rightarrow> (case json_parse m of None \<Rightarrow> Inl parse_failure | Some w \<Rightarrow> Inr w))"
    by (simp add: parseResponse_text split: option.splits)
next
  assume "CHR ''{'' \<notin> set pre \<and> CHR ''}'' \<notin> set post"
  then show "match_braces (pre @ [CHR ''{''] @ body @ [CHR ''}''] @ post)
      = Some ([CHR ''{''] @ body @ [CHR ''}''])"
    using match_braces_embedded [of pre post body] by blast
next
  assume a: "CHR ''{'' \<notin> set pre \<and> CHR ''}'' \<notin> set post
      \<and> json_parse (pre @ [CHR ''{''] @ body @ [CHR ''}''] @ post) = None"
  have m: "match_braces (pre @ [CHR ''{''] @ body @ [CHR ''}''] @ post)
      = Some ([CHR ''{''] @ body @ [CHR ''}''])"
    using a match_braces_embedded [of pre post body] by blast
  have alone: "match_braces ([CHR ''{''] @ body @ [CHR ''}'']) = Some ([CHR ''{''] @ body @ [CHR ''}''])"
    using match_braces_embedded [of "[]" "[]" body] by simp
  show "parseResponse json_parse [TextBlock (pre @ [CHR ''{''] @ body @ [CHR ''}''] @ post)]
      = parseResponse json_parse [TextBlock ([CHR ''{''] @ body @ [CHR ''}''])]"
    unfolding parseResponse_text m alone using a by (simp split: option.splits)
next
  assume a: "service 0 = Inr content \<and> parseResponse json_parse content = Inl e"
  then obtain m where e: "e = Error m"
    using parseResponse_error by blast
  have "create_then_parse json_parse service 0 = Inl e"
    using a by (simp add: create_then_parse_def)
  moreover have "\<not> (isRateLimit e \<and> (1::nat) < 4)" and "throwAPIError e = e"
    using e by (simp_all add: isRateLimit_def throwAPIError_def)
  ultimately show "withRetry (create_then_parse json_parse service) RETRY_MAX_ATTEMPTS = (Inl e, 1)"
    using withRetry_loop_throw [of 1 4 "create_then_parse json_parse service" 0 e]
    by (simp add: withRetry_def RETRY_MAX_ATTEMPTS_def)
qed

theorem parseResponse_greedy_match_witness:
  "parseResponse JSON_parse [TextBlock ''{\"company_name\":\"Acme\"}'']
     = Inr (JObject [(map of_char ''company_name'', JString (map of_char ''Acme''))])
   \<and> parseResponse JSON_parse
       [TextBlock (''Here is the JSON: '' @ ''{'' @ ''\"company_name\":\"Acme\"'' @ ''}'' @ '' Hope it helps.'')]
     = parseResponse JSON_parse [TextBlock (''{'' @ ''\"company_name\":\"Acme\"'' @ ''}'')]
   \<and> withRetry (create_then_parse JSON_parse (\<lambda>k. Inr [TextBlock ''I cannot read this document.'']))
       RETRY_MAX_ATTEMPTS
     = (Inl parse_failure, 1)"
proof -
  have p: "JSON_parse ''{\"company_name\":\"Acme\"}''
      = Some (JObject [(map of_char ''company_name'', JString (map of_char ''Acme''))])"
    by code_simp
  have q: "CHR ''{'' \<notin> set ''Here is the JSON: '' \<and> CHR ''}'' \<notin> set '' Hope it helps.''
      \<and> JSON_parse (''Here is the JSON: '' @ ''{'' @ ''\"company_name\":\"Acme\"'' @ ''}''
            @ '' Hope it helps.'') = None"
    by code_simp
  have r: "(\<lambda>k::nat. (Inr [TextBlock ''I cannot read this document.''] :: error + content_block list)) 0
        = Inr [TextBlock ''I cannot read this document.'']
      \<and> parseResponse JSON_parse [TextBlock ''I cannot read this document.''] = Inl parse_failure"
    by code_simp
  note th = parseResponse_greedy_match [where json_parse = JSON_parse
      and reply = "''{\"company_name\":\"Acme\"}''" and rest = "[]"
      and v = "JObject [(map of_char ''company_name'', JString (map of_char ''Acme''))]"
      and pre = "''Here is the JSON: ''" and body = "''\"company_name\":\"Acme\"''"
      and post = "'' Hope it helps.''"
      and service = "\<lambda>k. Inr [TextBlock ''I cannot read this document.'']"
      and content = "[TextBlock ''I cannot read this document.'']" and e = parse_failure]
  from th p q r show ?thesis by blast
qed

text \<open>
  C6, as the specification has it, fails.  The reply below is an object followed by a
  remark that itself contains braces.  The first balanced object of the reply is the
  object, and alone it parses; the source's match runs on to the last closing brace, does
  not parse, and the reply is a parse failure.
\<close>

theorem parseResponse_roundtrip_counterexample: "parseResponse JSON_parse
       [TextBlock ''{\"company_name\":\"Acme\"} (fields not in {the transcript} are null)'']
     = Inl parse_failure
   \<and> parseResponse JSON_parse [TextBlock ''{\"company_name\":\"Acme\"}'']
     = Inr (JObject [(map of_char ''company_name'', JString (map of_char ''Acme''))])
   \<and> first_balanced_object ''{\"company_name\":\"Acme\"} (fields not in {the transcript} are null)''
     = Some ''{\"company_name\":\"Acme\"}''
   \<and> match_braces ''{\"company_name\":\"Acme\"} (fields not in {the transcript} are null)''
     = Some ''{\"company_name\":\"Acme\"} (fields not in {the transcript}''"
  by code_simp

section \<open>Validator\<close>











end
